theory Spec2Isabelle
  imports Main
begin

section \<open>Strings\<close>

text \<open>
  A string of the program is a sequence of code units; the model takes the code units
  below 256 (Basic Latin and Latin-1), which is what \<^typ>\<open>char\<close> holds. The library
  functions of the language that the source calls are written out below for that range.
\<close>

definition code :: "char \<Rightarrow> nat" where
  "code c = of_char c"

definition isLower :: "char \<Rightarrow> bool" where
  \<comment> \<open>the class \<open>[a-z]\<close>\<close>
  "isLower c = (97 \<le> code c \<and> code c \<le> 122)"

definition isUpper :: "char \<Rightarrow> bool" where
  \<comment> \<open>the class \<open>[A-Z]\<close>\<close>
  "isUpper c = (65 \<le> code c \<and> code c \<le> 90)"

definition isDigit :: "char \<Rightarrow> bool" where
  \<comment> \<open>the classes \<open>[0-9]\<close> and \<open>\d\<close>\<close>
  "isDigit c = (48 \<le> code c \<and> code c \<le> 57)"

definition isWs :: "char \<Rightarrow> bool" where
  \<comment> \<open>the class \<open>\s\<close>, which is also what \<open>trim\<close> removes: tab, line feed, vertical tab,
      form feed, carriage return, space and no-break space\<close>
  "isWs c = (code c \<in> {9, 10, 11, 12, 13, 32, 160})"

definition lowerChar :: "char \<Rightarrow> char" where
  \<comment> \<open>the lower-case mapping: A-Z, and the Latin-1 capitals (all of 192-222 but the
      multiplication sign 215), move up by 32; every other code unit stays\<close>
  "lowerChar c =
     (if isUpper c \<or> (192 \<le> code c \<and> code c \<le> 222 \<and> code c \<noteq> 215)
      then char_of (code c + 32) else c)"

definition toLowerCase :: "string \<Rightarrow> string" where
  "toLowerCase s = map lowerChar s"

definition trim :: "string \<Rightarrow> string" where
  "trim s = rev (dropWhile isWs (rev (dropWhile isWs s)))"

text \<open>
  \<open>s.split(/\s+/)\<close>: the pieces between the maximal runs of whitespace. A run at the very
  start or end leaves an empty piece there, and the empty string gives one empty piece.
\<close>

function splitWs :: "string \<Rightarrow> string list" where
  "splitWs s =
     (case dropWhile (\<lambda>c. \<not> isWs c) s of
        [] \<Rightarrow> [s]
      | _ # r \<Rightarrow> takeWhile (\<lambda>c. \<not> isWs c) s # splitWs (dropWhile isWs r))"
  by pat_completeness auto
termination
proof (relation "measure length")
  fix s :: string and x r
  assume "dropWhile (\<lambda>c. \<not> isWs c) s = x # r"
  then have "length r < length s"
    by (metis length_dropWhile_le length_Cons less_Suc_eq_le not_less)
  moreover have "length (dropWhile isWs r) \<le> length r"
    by (rule length_dropWhile_le)
  ultimately show "(dropWhile isWs r, s) \<in> measure length"
    by simp
qed simp

declare splitWs.simps [simp del]

text \<open>\<open>parts.join(sep)\<close>\<close>

fun join :: "string \<Rightarrow> string list \<Rightarrow> string" where
  "join sep [] = []"
| "join sep [x] = x"
| "join sep (x # y # ys) = x @ sep @ join sep (y # ys)"

section \<open>Slugs\<close>

definition keepSlug :: "char \<Rightarrow> bool" where
  \<comment> \<open>the characters that \<open>replace(/[^a-z0-9 ]/g, "")\<close> leaves in place\<close>
  "keepSlug c = (isLower c \<or> isDigit c \<or> c = CHR '' '')"

definition slugify :: "string \<Rightarrow> string" where
  "slugify title =
     join ''-'' (take 5 (splitWs (trim (filter keepSlug (toLowerCase title)))))"

text \<open>
  The specification's reading of the same function: the words of a text are its maximal
  runs of characters that are not whitespace; the slug joins the first five words of the
  lower-cased, stripped title.
\<close>

function wordsOf :: "string \<Rightarrow> string list" where
  "wordsOf s =
     (case dropWhile isWs s of
        [] \<Rightarrow> []
      | x # r \<Rightarrow> (x # takeWhile (\<lambda>c. \<not> isWs c) r) # wordsOf (dropWhile (\<lambda>c. \<not> isWs c) r))"
  by pat_completeness auto
termination
proof (relation "measure length")
  fix s :: string and x r
  assume "dropWhile isWs s = x # r"
  then have "length r < length s"
    by (metis length_dropWhile_le length_Cons less_Suc_eq_le not_less)
  moreover have "length (dropWhile (\<lambda>c. \<not> isWs c) r) \<le> length r"
    by (rule length_dropWhile_le)
  ultimately show "(dropWhile (\<lambda>c. \<not> isWs c) r, s) \<in> measure length"
    by simp
qed simp

declare wordsOf.simps [simp del]

definition slugifySpec :: "string \<Rightarrow> string" where
  "slugifySpec title = join ''-'' (take 5 (wordsOf (filter keepSlug (toLowerCase title))))"

definition slugWords :: "string \<Rightarrow> string list" where
  \<comment> \<open>the words that make up the slug of a title\<close>
  "slugWords t = take 5 (wordsOf (filter keepSlug (toLowerCase t)))"

definition isAlnum :: "char \<Rightarrow> bool" where
  \<comment> \<open>the class \<open>[a-z0-9]\<close>\<close>
  "isAlnum c = (isLower c \<or> isDigit c)"

definition tight :: "string \<Rightarrow> bool" where
  \<comment> \<open>a non-empty text with no whitespace at either end\<close>
  "tight t = (t \<noteq> [] \<and> \<not> isWs (hd t) \<and> \<not> isWs (last t))"

section \<open>Anchored patterns\<close>

text \<open>
  The regular expressions of the source are all of one shape: between \<open>^\<close> and \<open>$\<close>, a
  sequence of literal characters and greedy \<open>[class]+\<close> items. The matcher tries, for
  each \<open>+\<close>, the longest run first and backs off one character at a time, as the
  backtracking engine of the language does; it returns the piece of the input that
  each item consumed in the first successful attempt.
\<close>

datatype item = Lit char | Plus "char \<Rightarrow> bool"

fun tryPlus :: "(string \<Rightarrow> string list option) \<Rightarrow> string \<Rightarrow> nat \<Rightarrow> string list option" where
  "tryPlus k s 0 = None"
| "tryPlus k s (Suc n) =
     (case k (drop (Suc n) s) of
        Some ps \<Rightarrow> Some (take (Suc n) s # ps)
      | None \<Rightarrow> tryPlus k s n)"

fun matchItems :: "item list \<Rightarrow> string \<Rightarrow> string list option" where
  "matchItems [] s = (if s = [] then Some [] else None)"
| "matchItems (Lit c # its) s =
     (case s of
        [] \<Rightarrow> None
      | x # xs \<Rightarrow> if x = c then map_option ((#) [x]) (matchItems its xs) else None)"
| "matchItems (Plus P # its) s =
     tryPlus (matchItems its) s (length (takeWhile P s))"

definition test :: "item list \<Rightarrow> string \<Rightarrow> bool" where
  \<comment> \<open>\<open>re.test(s)\<close>\<close>
  "test re s = (matchItems re s \<noteq> None)"

text \<open>
  What it means for a pattern to match, read off the pattern: the input is the
  concatenation of one piece for each item, a literal's piece being that character and
  a \<open>+\<close> item's piece a non-empty run of its class.
\<close>

fun pieceOk :: "item \<Rightarrow> string \<Rightarrow> bool" where
  "pieceOk (Lit c) p = (p = [c])"
| "pieceOk (Plus P) p = (p \<noteq> [] \<and> list_all P p)"

definition parses :: "item list \<Rightarrow> string \<Rightarrow> string list \<Rightarrow> bool" where
  "parses re s ps = (list_all2 pieceOk re ps \<and> concat ps = s)"

text \<open>
  A pattern leaves no choice when every \<open>+\<close> item is last or stands before a literal
  outside its class.
\<close>

fun follows :: "item \<Rightarrow> item list \<Rightarrow> bool" where
  "follows (Lit c) its = True"
| "follows (Plus P) [] = True"
| "follows (Plus P) (Lit c # its) = (\<not> P c)"
| "follows (Plus P) (Plus Q # its) = False"

fun unambiguous :: "item list \<Rightarrow> bool" where
  "unambiguous [] = True"
| "unambiguous (i # its) = (follows i its \<and> unambiguous its)"

section \<open>Branch link detection\<close>

record linkCheck =
  linked :: bool
  issueId :: "string option"

definition isSlugChar :: "char \<Rightarrow> bool" where
  \<comment> \<open>the class \<open>[a-z0-9-]\<close>\<close>
  "isSlugChar c = (isLower c \<or> isDigit c \<or> c = CHR ''-'')"

definition linkedRe :: "item list" where
  \<comment> \<open>\<open>/^[a-z]+\/([A-Z]+-[0-9]+)-[a-z0-9-]+$/\<close>; the group is items 2, 3 and 4\<close>
  "linkedRe =
     [Plus isLower, Lit CHR ''/'', Plus isUpper, Lit CHR ''-'', Plus isDigit, Lit CHR ''-'',
      Plus isSlugChar]"

definition isAlreadyLinked :: "string \<Rightarrow> linkCheck" where
  "isAlreadyLinked branch =
     (case matchItems linkedRe branch of
        Some ps \<Rightarrow> \<lparr>linked = True, issueId = Some (concat (take 3 (drop 2 ps)))\<rparr>
      | None \<Rightarrow> \<lparr>linked = False, issueId = None\<rparr>)"

text \<open>
  The pattern as the specification words it: a lower-case name, a slash, an upper-case
  prefix, a dash, a number, a dash, and a non-empty tail of \<open>[a-z0-9-]\<close>.
\<close>

definition linkedShape :: "string \<Rightarrow> string \<Rightarrow> string \<Rightarrow> string \<Rightarrow> string \<Rightarrow> bool" where
  "linkedShape branch name pre num rest =
     (branch = name @ ''/'' @ pre @ ''-'' @ num @ ''-'' @ rest \<and>
      name \<noteq> [] \<and> list_all isLower name \<and>
      pre \<noteq> [] \<and> list_all isUpper pre \<and>
      num \<noteq> [] \<and> list_all isDigit num \<and>
      rest \<noteq> [] \<and> list_all isSlugChar rest)"

section \<open>Issues and branch names\<close>

record issue =
  "identifier" :: string
  title :: string

definition branchName :: "string \<Rightarrow> issue \<Rightarrow> string" where
  \<comment> \<open>the branch name that \<open>main\<close> computes from the git name and the resolved issue\<close>
  "branchName gitName i = gitName @ ''/'' @ identifier i @ ''-'' @ slugify (title i)"

definition issueRe :: "string option \<Rightarrow> item list" where
  \<comment> \<open>the issue-id pattern, for a team key that the pattern matches letter by letter:
      \<open>^KEY-\d+$\<close> for a key, \<open>^[A-Z]+-\d+$\<close> when there is none or it is empty\<close>
  "issueRe teamKey =
     (case teamKey of
        Some k \<Rightarrow>
          if k \<noteq> [] then map Lit k @ [Lit CHR ''-'', Plus isDigit]
          else [Plus isUpper, Lit CHR ''-'', Plus isDigit]
      | None \<Rightarrow> [Plus isUpper, Lit CHR ''-'', Plus isDigit])"

section \<open>Command line\<close>

text \<open>
  \<open>parseArgs\<close> of the runtime's utility library, as the source configures it: two boolean
  options, \<open>auto\<close> and \<open>c\<close> (short form \<open>c\<close>), both false by default, positionals allowed,
  not strict. An option token carries the option's name and, for \<open>--name=text\<close>, the
  text.
\<close>

datatype token = OptionTok string "string option" | PositionalTok string | TerminatorTok

datatype optval = VBool bool | VStr string

record parsed =
  "values" :: "string \<rightharpoonup> optval"
  positionals :: "string list"

definition isLoneShortOption :: "string \<Rightarrow> bool" where
  "isLoneShortOption a = (length a = 2 \<and> a ! 0 = CHR ''-'' \<and> a ! 1 \<noteq> CHR ''-'')"

definition isShortOptionGroup :: "string \<Rightarrow> bool" where
  \<comment> \<open>no option of the source takes a text, so every such argument is a group\<close>
  "isShortOptionGroup a = (2 < length a \<and> a ! 0 = CHR ''-'' \<and> a ! 1 \<noteq> CHR ''-'')"

definition isLoneLongOption :: "string \<Rightarrow> bool" where
  "isLoneLongOption a = (2 < length a \<and> take 2 a = ''--'' \<and> CHR ''='' \<notin> set (drop 3 a))"

definition isLongOptionAndValue :: "string \<Rightarrow> bool" where
  "isLongOptionAndValue a = (2 < length a \<and> take 2 a = ''--'' \<and> CHR ''='' \<in> set (drop 3 a))"

definition findLongOptionForShort :: "char \<Rightarrow> string" where
  \<comment> \<open>\<open>c\<close> is the one short form declared, for the option of the same name\<close>
  "findLongOptionForShort ch = [ch]"

definition weight :: "string \<Rightarrow> nat" where
  "weight a = (if isShortOptionGroup a then 2 * length a else 1)"

function argsToTokens :: "string list \<Rightarrow> token list" where
  "argsToTokens [] = []"
| "argsToTokens (a # rest) =
     (if a = ''--'' then TerminatorTok # map PositionalTok rest
      else if isLoneShortOption a then
        OptionTok (findLongOptionForShort (a ! 1)) None # argsToTokens rest
      else if isShortOptionGroup a then
        argsToTokens (map (\<lambda>ch. [CHR ''-'', ch]) (tl a) @ rest)
      else if isLoneLongOption a then
        OptionTok (drop 2 a) None # argsToTokens rest
      else if isLongOptionAndValue a then
        OptionTok (takeWhile (\<lambda>ch. ch \<noteq> CHR ''='') (drop 2 a))
          (Some (tl (dropWhile (\<lambda>ch. ch \<noteq> CHR ''='') a))) # argsToTokens rest
      else PositionalTok a # argsToTokens rest)"
  by pat_completeness auto
termination
proof (relation "measure (\<lambda>args. sum_list (map weight args))")
  fix a :: string and rest
  assume "isShortOptionGroup a"
  then have w: "weight a = 2 * length a" and l: "2 < length a"
    by (simp_all add: weight_def isShortOptionGroup_def)
  have "weight [CHR ''-'', ch] = 1" for ch
    by (simp add: weight_def isShortOptionGroup_def)
  then have "sum_list (map weight (map (\<lambda>ch. [CHR ''-'', ch]) (tl a))) = length (tl a)"
    by (induction "tl a" arbitrary: a) (simp_all add: comp_def sum_list_triv)
  with w l show "(map (\<lambda>ch. [CHR ''-'', ch]) (tl a) @ rest, a # rest)
      \<in> measure (\<lambda>args. sum_list (map weight args))"
    by simp
qed (auto simp: weight_def isShortOptionGroup_def)

declare argsToTokens.simps [simp del]

definition storeOption :: "string \<Rightarrow> string option \<Rightarrow> (string \<rightharpoonup> optval) \<Rightarrow> (string \<rightharpoonup> optval)" where
  "storeOption longOption optionValue vals =
     (if longOption = ''__proto__'' then vals
      else vals(longOption \<mapsto> (case optionValue of None \<Rightarrow> VBool True | Some v \<Rightarrow> VStr v)))"

fun storeTokens :: "token list \<Rightarrow> parsed \<Rightarrow> parsed" where
  "storeTokens [] p = p"
| "storeTokens (OptionTok n v # ts) p = storeTokens ts (p\<lparr>values := storeOption n v (values p)\<rparr>)"
| "storeTokens (PositionalTok v # ts) p = storeTokens ts (p\<lparr>positionals := positionals p @ [v]\<rparr>)"
| "storeTokens (TerminatorTok # ts) p = storeTokens ts p"

definition storeDefault :: "string \<Rightarrow> parsed \<Rightarrow> parsed" where
  "storeDefault longOption p =
     (case values p longOption of
        None \<Rightarrow> p\<lparr>values := (values p)(longOption \<mapsto> VBool False)\<rparr>
      | Some _ \<Rightarrow> p)"

definition parseArgs :: "string list \<Rightarrow> parsed" where
  "parseArgs args =
     storeDefault ''c'' (storeDefault ''auto''
       (storeTokens (argsToTokens args) \<lparr>values = Map.empty, positionals = []\<rparr>))"

text \<open>The three module-level constants of the source, as functions of the parse result.\<close>

definition autoMode :: "parsed \<Rightarrow> bool" where
  "autoMode p = (values p ''auto'' = Some (VBool True))"

definition createMode :: "parsed \<Rightarrow> bool" where
  "createMode p = (values p ''c'' = Some (VBool True))"

definition arg :: "parsed \<Rightarrow> string" where
  "arg p = trim (join '' '' (positionals p))"

section \<open>Modes\<close>

datatype Mode =
    Interactive
  | Direct string
  | Search string
  | Create "string option"
  | Auto "string option"

definition orUndefined :: "string \<Rightarrow> string option" where
  \<comment> \<open>\<open>s || undefined\<close>\<close>
  "orUndefined s = (if s = [] then None else Some s)"

definition determineMode :: "parsed \<Rightarrow> Mode" where
  "determineMode p =
     (if autoMode p then Auto (orUndefined (arg p))
      else if createMode p then Create (orUndefined (arg p))
      else if arg p = [] then Interactive
      else Search (arg p))"

definition plainWord :: "string \<Rightarrow> bool" where
  \<comment> \<open>an argument that does not start with a dash\<close>
  "plainWord a = (case a of [] \<Rightarrow> True | ch # _ \<Rightarrow> ch \<noteq> CHR ''-'')"

definition flagTok :: "string \<Rightarrow> string \<Rightarrow> token" where
  \<comment> \<open>the token of an argument that is either a plain word or the flag of the option \<open>n\<close>\<close>
  "flagTok n a = (if plainWord a then PositionalTok a else OptionTok n None)"

section \<open>The world around a run\<close>

text \<open>
  The tracker, git, the terminal prompts and the configuration file are outside the
  program. A \<open>world\<close> fixes what each of them answers during one run; a run records, in
  order, every call it makes to them and every message it prints. The last field is the
  runtime's \<open>RegExp\<close> on the text of a pattern: its tester, or nothing for a syntax error.
\<close>

record LbranchConfig =
  teamId :: string
  teamKey :: string

record LinearTeam =
  tid :: string
  tname :: string
  tkey :: string

record wfstate =
  sid :: string
  sname :: string
  stype :: string

record updates =
  assigneeId :: "string option"
  stateId :: "string option"

datatype failure =
    ConfigError
  | UsageError
  | NotFoundError string
  | ValidationError
  | TransportError
  | SubprocessError
  | TypeError
  | SelectionError
  | SyntaxError

datatype stop = Failed failure | Cancelled

datatype pick = Picked issue | PickCreate

datatype menu = MenuPick issue | MenuSearch string | MenuCreate string

datatype tracker_call =
    GetTeams
  | GetIssueById string
  | SearchIssues string
  | CreateIssue string string
  | GetViewerId
  | GetInProgressStateId string
  | UpdateIssue string updates
  | GetIssueUrl string
  | GetAssignedTodos nat
  | GetRecentUnassigned nat

datatype git_call =
    ConfigUserName
  | SymbolicRefHead
  | PullOrigin string
  | CheckoutNew string
  | BranchMove string

datatype prompt =
    PromptGitName
  | PromptIssueTitle
  | SelectTeam "LinearTeam list"
  | PickIssue "issue list"
  | InteractiveMenu "issue list" "issue list"

datatype message =
    AlreadyLinked "string option" string
  | FetchingTeams
  | TeamsLoaded
  | SavedTeam string
  | CreatingIssue
  | CreatedIssue string string
  | LookingUp string
  | IssueNotFound string
  | FoundIssue string string
  | Searching string
  | FoundCount nat
  | Loading
  | ClearLine
  | UpdatingIssue
  | IssueUpdated
  | CreatingBranch string
  | RenamingBranch string
  | BranchDone string
  | Summary string string string "string option"
  | ErrorMessage failure

datatype event =
    EvLoadApiKey
  | EvGit git_call
  | EvTracker tracker_call
  | EvPrompt prompt
  | EvLoadConfig
  | EvSaveConfig LbranchConfig
  | EvSpinStart message
  | EvSpinStop message
  | EvLog message
  | EvConsole message
  | EvStdout message
  | EvNote message

record world =
  argv :: "string list"
  loadApiKeyW :: "failure + string"
  gitUserNameW :: "string option"
  promptGitNameW :: "string option"
  currentBranchW :: "failure + string"
  configFileW :: "LbranchConfig option"
  getTeamsW :: "failure + LinearTeam list"
  selectTeamW :: "LinearTeam list \<Rightarrow> stop + LinearTeam"
  promptIssueTitleW :: "string option"
  getIssueByIdW :: "string \<Rightarrow> failure + issue option"
  searchIssuesW :: "string \<Rightarrow> failure + issue list"
  pickIssueW :: "issue list \<Rightarrow> stop + pick"
  createIssueW :: "string \<Rightarrow> string \<Rightarrow> failure + issue"
  assignedTodosW :: "failure + issue list"
  recentUnassignedW :: "failure + issue list"
  menuW :: "issue list \<Rightarrow> issue list \<Rightarrow> stop + menu"
  viewerIdW :: "failure + string option"
  statesW :: "string \<Rightarrow> failure + wfstate list"
  updateIssueW :: "string \<Rightarrow> updates \<Rightarrow> failure option"
  gitPullW :: "string \<Rightarrow> failure option"
  gitCheckoutW :: "string \<Rightarrow> failure option"
  gitBranchMoveW :: "string \<Rightarrow> failure option"
  issueUrlW :: "string \<Rightarrow> failure + string option"
  regExpW :: "string \<Rightarrow> (string \<Rightarrow> bool) option"

text \<open>
  The state of a run: the events so far and the content of the team configuration file
  (absent when the file is missing or does not parse).
\<close>

record run =
  trace :: "event list"
  cache :: "LbranchConfig option"

type_synonym 'a act = "run \<Rightarrow> (stop + 'a) \<times> run"

definition ret :: "'a \<Rightarrow> 'a act" where
  "ret x = (\<lambda>r. (Inr x, r))"

definition bnd :: "'a act \<Rightarrow> ('a \<Rightarrow> 'b act) \<Rightarrow> 'b act" where
  \<comment> \<open>\<open>await\<close>: a step that throws or exits ends the run there\<close>
  "bnd m f = (\<lambda>r. case m r of (Inl e, r') \<Rightarrow> (Inl e, r') | (Inr x, r') \<Rightarrow> f x r')"

definition emit :: "event \<Rightarrow> unit act" where
  "emit e = (\<lambda>r. (Inr (), r\<lparr>trace := trace r @ [e]\<rparr>))"

definition throw :: "failure \<Rightarrow> 'a act" where
  "throw f = (\<lambda>r. (Inl (Failed f), r))"

definition settle :: "failure + 'a \<Rightarrow> 'a act" where
  \<comment> \<open>the outcome of a call that was already issued\<close>
  "settle resp = (case resp of Inl f \<Rightarrow> throw f | Inr x \<Rightarrow> ret x)"

definition tracker :: "tracker_call \<Rightarrow> failure + 'a \<Rightarrow> 'a act" where
  "tracker c resp = bnd (emit (EvTracker c)) (\<lambda>_. settle resp)"

definition gitExec :: "git_call \<Rightarrow> failure option \<Rightarrow> unit act" where
  "gitExec c resp =
     bnd (emit (EvGit c)) (\<lambda>_. case resp of Some f \<Rightarrow> throw f | None \<Rightarrow> ret ())"

definition ask :: "prompt \<Rightarrow> stop + 'a \<Rightarrow> 'a act" where
  \<comment> \<open>a prompt: an answer, a thrown error, or a cancellation that exits the process\<close>
  "ask p resp = bnd (emit (EvPrompt p)) (\<lambda>_ r. (resp, r))"

definition askText :: "prompt \<Rightarrow> string option \<Rightarrow> string act" where
  "askText p resp = ask p (case resp of None \<Rightarrow> Inl Cancelled | Some s \<Rightarrow> Inr s)"

section \<open>Configuration\<close>

definition validConfig :: "LbranchConfig option \<Rightarrow> LbranchConfig option" where
  \<comment> \<open>a configuration counts only with both of its fields non-empty\<close>
  "validConfig file =
     (case file of
        Some c \<Rightarrow> if teamId c \<noteq> [] \<and> teamKey c \<noteq> [] then Some c else None
      | None \<Rightarrow> None)"

definition loadTeamConfig :: "LbranchConfig option act" where
  "loadTeamConfig = bnd (emit EvLoadConfig) (\<lambda>_ r. (Inr (validConfig (cache r)), r))"

definition cachedTeamKey :: "run \<Rightarrow> string option" where
  \<comment> \<open>\<open>teamConfig?.teamKey\<close> for the configuration that a load would return now\<close>
  "cachedTeamKey r = map_option teamKey (validConfig (cache r))"

definition saveTeamConfig :: "LbranchConfig \<Rightarrow> unit act" where
  "saveTeamConfig c = bnd (emit (EvSaveConfig c)) (\<lambda>_ r. (Inr (), r\<lparr>cache := Some c\<rparr>))"

definition firstNameOf :: "string option \<Rightarrow> bool \<Rightarrow> string" where
  \<comment> \<open>what \<open>getGitName\<close> makes of the output of \<open>git config user.name\<close> (absent when the
      command cannot be run): the first word, lower-cased, or the fallback\<close>
  "firstNameOf out auto =
     (let fallback = (if auto then ''ci'' else []) in
      case out of
        None \<Rightarrow> fallback
      | Some text \<Rightarrow>
          let fullName = trim text in
          if fullName \<noteq> [] then
            (case splitWs fullName of
               [] \<Rightarrow> fallback
             | firstName # _ \<Rightarrow> toLowerCase firstName)
          else fallback)"

definition getGitName :: "world \<Rightarrow> bool \<Rightarrow> string act" where
  "getGitName w auto =
     bnd (emit (EvGit ConfigUserName)) (\<lambda>_. ret (firstNameOf (gitUserNameW w) auto))"

section \<open>Tracker queries with logic of their own\<close>

text \<open>
  \<open>/progress/i.test(name)\<close>: some position of the name starts with the letters of the
  pattern, compared after canonicalisation. Canonicalisation upper-cases; in the range of
  the model it moves a-z and the Latin-1 small letters down by 32. (The two small
  letters whose capitals lie beyond the range, 181 and 255, stay: each is alone in its
  class either way.)
\<close>

definition canonicalize :: "char \<Rightarrow> char" where
  "canonicalize c =
     (if isLower c \<or> (224 \<le> code c \<and> code c \<le> 254 \<and> code c \<noteq> 247)
      then char_of (code c - 32) else c)"

fun prefixI :: "string \<Rightarrow> string \<Rightarrow> bool" where
  "prefixI [] s = True"
| "prefixI (p # ps) [] = False"
| "prefixI (p # ps) (c # cs) = (canonicalize c = canonicalize p \<and> prefixI ps cs)"

fun searchI :: "string \<Rightarrow> string \<Rightarrow> bool" where
  "searchI pat [] = prefixI pat []"
| "searchI pat (c # cs) = (prefixI pat (c # cs) \<or> searchI pat cs)"

definition startedProgress :: "wfstate \<Rightarrow> bool" where
  "startedProgress s = (stype s = ''started'' \<and> searchI ''progress'' (sname s))"

definition findInProgress :: "wfstate list \<Rightarrow> string option" where
  \<comment> \<open>the choice that \<open>getInProgressStateId\<close> makes among the states it fetched\<close>
  "findInProgress states =
     (case find (\<lambda>s. sname s = ''In Progress'') states of
        Some s \<Rightarrow> Some (sid s)
      | None \<Rightarrow>
          (case find startedProgress states of
             Some s \<Rightarrow> Some (sid s)
           | None \<Rightarrow> None))"

definition truthy :: "string option \<Rightarrow> string option" where
  \<comment> \<open>what \<open>if (v) field = v\<close> stores: nothing for an absent or empty text\<close>
  "truthy v = (case v of None \<Rightarrow> None | Some s \<Rightarrow> if s = [] then None else Some s)"

text \<open>The specification's wording of "contains, whatever the case".\<close>

definition containsNoCase :: "string \<Rightarrow> string \<Rightarrow> bool" where
  "containsNoCase pat s =
     (\<exists>pre mid post. s = pre @ mid @ post \<and> map canonicalize mid = map canonicalize pat)"

section \<open>Building the issue-id pattern\<close>

text \<open>
  The source interpolates the cached team key into the text of a pattern and hands the
  text to \<open>RegExp\<close>. A key without syntax characters is matched letter by letter, which
  \<open>issueRe\<close> writes out. For any other key the result is what the runtime makes of the
  text: a tester, or a syntax error that is thrown.
\<close>

definition syntaxChar :: "char \<Rightarrow> bool" where
  \<comment> \<open>the characters with a meaning of their own in a pattern:
      \<open>$ ( ) * + . ? [ \ ] ^ { | }\<close>\<close>
  "syntaxChar c = (code c \<in> {36, 40, 41, 42, 43, 46, 63, 91, 92, 93, 94, 123, 124, 125})"

definition issueReSource :: "string \<Rightarrow> string" where
  \<comment> \<open>the text of the pattern for a key: the key between \<open>^\<close> and \<open>-\d+$\<close>\<close>
  "issueReSource k = ''^'' @ k @ [CHR ''-'', CHR 0x5C, CHR ''d'', CHR ''+'', CHR ''$'']"

definition newIssueRe :: "world \<Rightarrow> string option \<Rightarrow> failure + (string \<Rightarrow> bool)" where
  \<comment> \<open>\<open>teamKey ? new RegExp(...) : /^[A-Z]+-\d+$/\<close>, as the tester of the pattern\<close>
  "newIssueRe w key =
     (case truthy key of
        None \<Rightarrow> Inr (test (issueRe None))
      | Some k \<Rightarrow>
          if list_all (\<lambda>c. \<not> syntaxChar c) k then Inr (test (issueRe (Some k)))
          else (case regExpW w (issueReSource k) of
                  None \<Rightarrow> Inl SyntaxError
                | Some t \<Rightarrow> Inr t))"

section \<open>Resolving the issue\<close>

definition resolveTeamId :: "world \<Rightarrow> bool \<Rightarrow> LbranchConfig act" where
  "resolveTeamId w auto =
     bnd loadTeamConfig (\<lambda>cached.
       case cached of
         Some c \<Rightarrow> ret c
       | None \<Rightarrow>
           bnd (emit (EvSpinStart FetchingTeams)) (\<lambda>_.
           bnd (tracker GetTeams (getTeamsW w)) (\<lambda>teams.
           bnd (emit (EvSpinStop TeamsLoaded)) (\<lambda>_.
           bnd (if length teams = 1 \<or> auto then
                  (case teams of [] \<Rightarrow> throw TypeError | t # _ \<Rightarrow> ret t)
                else ask (SelectTeam teams) (selectTeamW w teams)) (\<lambda>team.
           let config = \<lparr>teamId = tid team, teamKey = tkey team\<rparr> in
           bnd (saveTeamConfig config) (\<lambda>_.
           bnd (emit (EvLog (SavedTeam (tkey team)))) (\<lambda>_.
           ret config)))))))"

definition doCreateIssue :: "world \<Rightarrow> bool \<Rightarrow> string option \<Rightarrow> issue act" where
  "doCreateIssue w auto title_opt =
     bnd (case title_opt of
            Some t \<Rightarrow> ret (Some t)
          | None \<Rightarrow>
              if auto then ret None
              else bnd (askText PromptIssueTitle (promptIssueTitleW w)) (\<lambda>t. ret (Some t)))
       (\<lambda>issueTitle.
          case truthy issueTitle of
            None \<Rightarrow> throw ValidationError
          | Some t \<Rightarrow>
              bnd (resolveTeamId w auto) (\<lambda>c.
              bnd (emit (EvSpinStart CreatingIssue)) (\<lambda>_.
              bnd (tracker (CreateIssue t (teamId c)) (createIssueW w t (teamId c))) (\<lambda>i.
              bnd (emit (EvSpinStop (CreatedIssue (identifier i) (title i)))) (\<lambda>_.
              ret i)))))"

definition pickOrCreate :: "world \<Rightarrow> bool \<Rightarrow> issue list \<Rightarrow> issue act" where
  \<comment> \<open>\<open>pickIssue\<close> followed by the test for the create answer\<close>
  "pickOrCreate w auto issues =
     bnd (ask (PickIssue issues) (pickIssueW w issues)) (\<lambda>selected.
       case selected of
         PickCreate \<Rightarrow> doCreateIssue w auto None
       | Picked i \<Rightarrow> ret i)"

definition resolveIssue :: "world \<Rightarrow> bool \<Rightarrow> Mode \<Rightarrow> issue act" where
  "resolveIssue w auto mode =
     bnd loadTeamConfig (\<lambda>teamConfig.
     bnd (settle (newIssueRe w (map_option teamKey teamConfig))) (\<lambda>re.
       case mode of
         Direct iid \<Rightarrow>
           bnd (emit (EvSpinStart (LookingUp iid))) (\<lambda>_.
           bnd (tracker (GetIssueById iid) (getIssueByIdW w iid)) (\<lambda>found.
           case found of
             None \<Rightarrow>
               bnd (emit (EvSpinStop (IssueNotFound iid))) (\<lambda>_.
               throw (NotFoundError iid))
           | Some i \<Rightarrow>
               bnd (emit (EvSpinStop (FoundIssue (identifier i) (title i)))) (\<lambda>_. ret i)))
       | Create t \<Rightarrow> doCreateIssue w auto t
       | Auto a \<Rightarrow>
           (case truthy a of
              None \<Rightarrow> throw UsageError
            | Some x \<Rightarrow>
                if re x then
                  bnd (tracker (GetIssueById x) (getIssueByIdW w x)) (\<lambda>found.
                  case found of
                    None \<Rightarrow> throw (NotFoundError x)
                  | Some i \<Rightarrow> ret i)
                else doCreateIssue w auto (Some x))
       | Search query \<Rightarrow>
           if re query then
             bnd (emit (EvSpinStart (LookingUp query))) (\<lambda>_.
             bnd (tracker (GetIssueById query) (getIssueByIdW w query)) (\<lambda>found.
             case found of
               None \<Rightarrow>
                 bnd (emit (EvSpinStop (IssueNotFound query))) (\<lambda>_.
                 throw (NotFoundError query))
             | Some i \<Rightarrow>
                 bnd (emit (EvSpinStop (FoundIssue (identifier i) (title i)))) (\<lambda>_. ret i)))
           else
             bnd (emit (EvSpinStart (Searching query))) (\<lambda>_.
             bnd (tracker (SearchIssues query) (searchIssuesW w query)) (\<lambda>issues.
             bnd (emit (EvSpinStop (FoundCount (length issues)))) (\<lambda>_.
             if length issues = 0 then pickOrCreate w auto []
             else pickOrCreate w auto issues)))
       | Interactive \<Rightarrow>
           bnd (emit (EvStdout Loading)) (\<lambda>_.
           bnd (emit (EvTracker (GetAssignedTodos 3))) (\<lambda>_.
           bnd (emit (EvTracker (GetRecentUnassigned 6))) (\<lambda>_.
           bnd (settle (assignedTodosW w)) (\<lambda>todos.
           bnd (settle (recentUnassignedW w)) (\<lambda>recent.
           bnd (emit (EvStdout ClearLine)) (\<lambda>_.
           bnd (ask (InteractiveMenu todos recent) (menuW w todos recent)) (\<lambda>menuResult.
           case menuResult of
             MenuPick i \<Rightarrow> ret i
           | MenuSearch query \<Rightarrow>
               bnd (emit (EvSpinStart (Searching query))) (\<lambda>_.
               bnd (tracker (SearchIssues query) (searchIssuesW w query)) (\<lambda>results.
               bnd (emit (EvSpinStop (FoundCount (length results)))) (\<lambda>_.
               pickOrCreate w auto results)))
           | MenuCreate t \<Rightarrow> doCreateIssue w auto (orUndefined t))))))))))"

section \<open>The orchestrator\<close>

text \<open>The blocks of \<open>main\<close>, in the order of the source.\<close>

definition resolveName :: "world \<Rightarrow> bool \<Rightarrow> string act" where
  "resolveName w auto =
     bnd (getGitName w auto) (\<lambda>gitName.
       if gitName = [] \<and> \<not> auto then askText PromptGitName (promptGitNameW w)
       else ret gitName)"

definition getCurrentBranch :: "world \<Rightarrow> string act" where
  "getCurrentBranch w =
     bnd (emit (EvGit SymbolicRefHead)) (\<lambda>_. settle (currentBranchW w))"

definition refineMode :: "world \<Rightarrow> Mode \<Rightarrow> Mode act" where
  "refineMode w mode =
     (case mode of
        Search query \<Rightarrow>
          bnd loadTeamConfig (\<lambda>teamConfig.
          bnd (settle (newIssueRe w (map_option teamKey teamConfig))) (\<lambda>re.
            if re query then ret (Direct query)
            else ret mode))
      | _ \<Rightarrow> ret mode)"

definition updateStep :: "world \<Rightarrow> issue \<Rightarrow> unit act" where
  "updateStep w i =
     bnd (emit (EvSpinStart UpdatingIssue)) (\<lambda>_.
     bnd (emit (EvTracker GetViewerId)) (\<lambda>_.
     bnd (emit (EvTracker (GetInProgressStateId (identifier i)))) (\<lambda>_.
     bnd (settle (viewerIdW w)) (\<lambda>viewerId.
     bnd (settle (statesW w (identifier i))) (\<lambda>states.
     let inProgressId = findInProgress states;
         u = \<lparr>assigneeId = truthy viewerId, stateId = truthy inProgressId\<rparr> in
     bnd (emit (EvTracker (UpdateIssue (identifier i) u))) (\<lambda>_.
     bnd (case updateIssueW w (identifier i) u of Some f \<Rightarrow> throw f | None \<Rightarrow> ret ()) (\<lambda>_.
     emit (EvSpinStop IssueUpdated))))))))"

definition branchStep :: "world \<Rightarrow> string \<Rightarrow> string \<Rightarrow> unit act" where
  "branchStep w currentBranch name =
     bnd (if currentBranch = ''main'' \<or> currentBranch = ''master'' then
            bnd (emit (EvSpinStart (CreatingBranch name))) (\<lambda>_.
            bnd (gitExec (PullOrigin currentBranch) (gitPullW w currentBranch)) (\<lambda>_.
            gitExec (CheckoutNew name) (gitCheckoutW w name)))
          else
            bnd (emit (EvSpinStart (RenamingBranch name))) (\<lambda>_.
            gitExec (BranchMove name) (gitBranchMoveW w name)))
       (\<lambda>_. emit (EvSpinStop (BranchDone name)))"

definition summaryStep :: "world \<Rightarrow> issue \<Rightarrow> string \<Rightarrow> unit act" where
  "summaryStep w i name =
     bnd (tracker (GetIssueUrl (identifier i)) (issueUrlW w (identifier i))) (\<lambda>issueUrl.
     emit (EvNote (Summary (identifier i) (title i) name (truthy issueUrl))))"

definition main :: "world \<Rightarrow> unit act" where
  "main w =
     (let p = parseArgs (argv w); auto = autoMode p in
      bnd (bnd (emit EvLoadApiKey) (\<lambda>_. settle (loadApiKeyW w))) (\<lambda>apiKey.
      bnd (resolveName w auto) (\<lambda>gitName.
      bnd (getCurrentBranch w) (\<lambda>currentBranch.
      let linkCheck = isAlreadyLinked currentBranch in
      if linked linkCheck then
        emit ((if \<not> auto then EvLog else EvConsole)
               (AlreadyLinked (issueId linkCheck) currentBranch))
      else
        bnd (refineMode w (determineMode p)) (\<lambda>mode.
        bnd (resolveIssue w auto mode) (\<lambda>i.
        bnd (updateStep w i) (\<lambda>_.
        let name = branchName gitName i in
        bnd (branchStep w currentBranch name) (\<lambda>_.
        summaryStep w i name))))))))"

text \<open>
  The process: the run starts with an empty trace and the configuration file of the
  world; a thrown error is printed and the exit code is 1; a cancelled prompt and a
  normal return both exit with code 0.
\<close>

definition process :: "world \<Rightarrow> event list \<times> nat" where
  "process w =
     (case main w \<lparr>trace = [], cache = configFileW w\<rparr> of
        (Inr _, r) \<Rightarrow> (trace r, 0)
      | (Inl Cancelled, r) \<Rightarrow> (trace r, 0)
      | (Inl (Failed f), r) \<Rightarrow>
          (trace r @ [(if \<not> autoMode (parseArgs (argv w)) then EvLog else EvConsole)
                       (ErrorMessage f)], 1))"

definition newEvents :: "'a act \<Rightarrow> run \<Rightarrow> event list" where
  \<comment> \<open>the events that a step adds to the trace\<close>
  "newEvents m r = drop (length (trace r)) (trace (snd (m r)))"

definition isTrackerCall :: "event \<Rightarrow> bool" where
  "isTrackerCall e = (case e of EvTracker _ \<Rightarrow> True | _ \<Rightarrow> False)"

definition isGitMutation :: "event \<Rightarrow> bool" where
  \<comment> \<open>pull, branch creation and branch rename\<close>
  "isGitMutation e =
     (case e of
        EvGit (PullOrigin _) \<Rightarrow> True
      | EvGit (CheckoutNew _) \<Rightarrow> True
      | EvGit (BranchMove _) \<Rightarrow> True
      | _ \<Rightarrow> False)"

definition isUpdateCall :: "event \<Rightarrow> bool" where
  "isUpdateCall e = (case e of EvTracker (UpdateIssue _ _) \<Rightarrow> True | _ \<Rightarrow> False)"

definition isSearchCall :: "event \<Rightarrow> bool" where
  "isSearchCall e = (case e of EvTracker (SearchIssues _) \<Rightarrow> True | _ \<Rightarrow> False)"

definition quiet :: "event list \<Rightarrow> bool" where
  \<comment> \<open>no tracker call and no pull, branch creation or rename\<close>
  "quiet tr = list_all (\<lambda>e. \<not> isTrackerCall e \<and> \<not> isGitMutation e) tr"

definition statusEvent :: "world \<Rightarrow> string \<Rightarrow> event" where
  \<comment> \<open>the already-linked status, on the channel of the mode\<close>
  "statusEvent w b =
     (if \<not> autoMode (parseArgs (argv w)) then EvLog else EvConsole)
       (AlreadyLinked (issueId (isAlreadyLinked b)) b)"

text \<open>A world in which both the viewer id and the in-progress state are absent.\<close>

definition bareWorld :: world where
  "bareWorld =
     \<lparr>argv = [''ENG-1''],
      loadApiKeyW = Inr ''lin_api_key'',
      gitUserNameW = Some ''Alice Smith'',
      promptGitNameW = None,
      currentBranchW = Inr ''main'',
      configFileW = None,
      getTeamsW = Inr [],
      selectTeamW = (\<lambda>_. Inl Cancelled),
      promptIssueTitleW = None,
      getIssueByIdW = (\<lambda>_. Inr (Some \<lparr>identifier = ''ENG-1'', title = ''Fix login bug''\<rparr>)),
      searchIssuesW = (\<lambda>_. Inr []),
      pickIssueW = (\<lambda>_. Inl Cancelled),
      createIssueW = (\<lambda>_ _. Inl TransportError),
      assignedTodosW = Inr [],
      recentUnassignedW = Inr [],
      menuW = (\<lambda>_ _. Inl Cancelled),
      viewerIdW = Inr None,
      statesW = (\<lambda>_. Inr []),
      updateIssueW = (\<lambda>_ _. None),
      gitPullW = (\<lambda>_. None),
      gitCheckoutW = (\<lambda>_. None),
      gitBranchMoveW = (\<lambda>_. None),
      issueUrlW = (\<lambda>_. Inr None),
      regExpW = (\<lambda>_. None)\<rparr>"

section \<open>Properties of the pattern matcher\<close>

lemma tryPlus_Some:
  "tryPlus k s n = Some qs \<Longrightarrow>
     \<exists>m ps. 0 < m \<and> m \<le> n \<and> k (drop m s) = Some ps \<and> qs = take m s # ps"
proof (induction n)
  case 0
  then show ?case by simp
next
  case (Suc n)
  show ?case
  proof (cases "k (drop (Suc n) s)")
    case None
    with Suc.prems have "tryPlus k s n = Some qs" by simp
    from Suc.IH [OF this] obtain m ps where "0 < m" "m \<le> n" "k (drop m s) = Some ps"
      "qs = take m s # ps" by blast
    then have "0 < m \<and> m \<le> Suc n \<and> k (drop m s) = Some ps \<and> qs = take m s # ps" by simp
    then show ?thesis by blast
  next
    case (Some ps)
    with Suc.prems have "qs = take (Suc n) s # ps" by simp
    with Some show ?thesis by blast
  qed
qed

lemma tryPlus_complete:
  "0 < m \<Longrightarrow> m \<le> n \<Longrightarrow> k (drop m s) \<noteq> None \<Longrightarrow> tryPlus k s n \<noteq> None"
proof (induction n)
  case 0
  then show ?case by simp
next
  case (Suc n)
  show ?case
  proof (cases "m = Suc n")
    case True
    with Suc.prems show ?thesis by auto
  next
    case False
    with Suc.prems have "m \<le> n" by simp
    with Suc have "tryPlus k s n \<noteq> None" by blast
    then show ?thesis by (auto split: option.splits)
  qed
qed

lemma take_takeWhile_all:
  "m \<le> length (takeWhile P s) \<Longrightarrow> list_all P (take m s)"
proof (induction s arbitrary: m)
  case Nil
  then show ?case by simp
next
  case (Cons x xs)
  then show ?case by (cases m) (auto split: if_splits)
qed

lemma matchItems_sound:
  "matchItems re s = Some ps \<Longrightarrow> parses re s ps"
proof (induction re arbitrary: s ps)
  case Nil
  then show ?case by (simp add: parses_def split: if_splits)
next
  case (Cons i its)
  show ?case
  proof (cases i)
    case (Lit c)
    with Cons.prems obtain xs qs where s: "s = c # xs" and q: "matchItems its xs = Some qs"
      and ps: "ps = [c] # qs"
      by (auto split: list.splits if_splits)
    from Cons.IH [OF q] show ?thesis using Lit s ps by (simp add: parses_def)
  next
    case (Plus P)
    with Cons.prems have "tryPlus (matchItems its) s (length (takeWhile P s)) = Some ps"
      by simp
    from tryPlus_Some [OF this] obtain m qs where m: "0 < m" "m \<le> length (takeWhile P s)"
      and q: "matchItems its (drop m s) = Some qs" and ps: "ps = take m s # qs"
      by blast
    have "m \<le> length s" using m(2) length_takeWhile_le [of P s] by (rule order_trans)
    with m(1) have ne: "take m s \<noteq> []" by auto
    from Cons.IH [OF q] show ?thesis
      using Plus ps ne take_takeWhile_all [OF m(2)] by (simp add: parses_def)
  qed
qed

lemma length_le_takeWhile:
  "list_all P p \<Longrightarrow> length p \<le> length (takeWhile P (p @ r))"
  by (induction p) auto

lemma matchItems_complete:
  "parses re s ps \<Longrightarrow> matchItems re s \<noteq> None"
proof (induction re arbitrary: s ps)
  case Nil
  then show ?case by (auto simp: parses_def)
next
  case (Cons i its)
  from Cons.prems obtain p qs where ps: "ps = p # qs" and p: "pieceOk i p"
    and qs: "parses its (concat qs) qs" and s: "s = p @ concat qs"
    by (auto simp: parses_def list_all2_Cons1)
  from Cons.IH [OF qs] have rest: "matchItems its (concat qs) \<noteq> None" .
  show ?case
  proof (cases i)
    case (Lit c)
    with p s rest show ?thesis by auto
  next
    case (Plus P)
    with p have ne: "0 < length p" and all: "list_all P p" by auto
    have "matchItems its (drop (length p) s) \<noteq> None" using rest s by simp
    moreover have "length p \<le> length (takeWhile P s)"
      using length_le_takeWhile [OF all] s by simp
    ultimately have "tryPlus (matchItems its) s (length (takeWhile P s)) \<noteq> None"
      using ne by (rule_tac m = "length p" in tryPlus_complete)
    then show ?thesis using Plus by simp
  qed
qed

lemma takeWhile_piece:
  "list_all P p \<Longrightarrow> \<not> P c \<Longrightarrow> takeWhile P (p @ c # r) = p"
  by (induction p) auto

lemma parses_unique:
  "unambiguous re \<Longrightarrow> parses re s ps \<Longrightarrow> parses re s qs \<Longrightarrow> ps = qs"
proof (induction re arbitrary: s ps qs)
  case Nil
  then show ?case by (simp add: parses_def)
next
  case (Cons i its)
  from Cons.prems(2) obtain p ps' where ps: "ps = p # ps'" and p: "pieceOk i p"
    and ps': "parses its (concat ps') ps'" and sp: "s = p @ concat ps'"
    by (auto simp: parses_def list_all2_Cons1)
  from Cons.prems(3) obtain q qs' where qs: "qs = q # qs'" and q: "pieceOk i q"
    and qs': "parses its (concat qs') qs'" and sq: "s = q @ concat qs'"
    by (auto simp: parses_def list_all2_Cons1)
  from Cons.prems(1) have fol: "follows i its" and una: "unambiguous its" by simp_all
  have "p = q"
  proof (cases i)
    case (Lit c)
    with p q show ?thesis by simp
  next
    case (Plus P)
    show ?thesis
    proof (cases its)
      case Nil
      with ps' qs' have "ps' = []" "qs' = []" by (simp_all add: parses_def)
      with sp sq show ?thesis by simp
    next
      case (Cons j jts)
      with fol Plus obtain c where j: "j = Lit c" and c: "\<not> P c" by (cases j) auto
      from ps' Cons j obtain r where "concat ps' = c # r"
        by (auto simp: parses_def list_all2_Cons1)
      with sp p Plus c have 1: "takeWhile P s = p" by (simp add: takeWhile_piece)
      from qs' Cons j obtain r' where "concat qs' = c # r'"
        by (auto simp: parses_def list_all2_Cons1)
      with sq q Plus c have 2: "takeWhile P s = q" by (simp add: takeWhile_piece)
      from 1 2 show ?thesis by simp
    qed
  qed
  with sp sq have "concat ps' = concat qs'" by simp
  with Cons.IH [OF una ps'] qs' have "ps' = qs'" by simp
  with \<open>p = q\<close> ps qs show ?case by simp
qed

lemma matchItems_parses:
  assumes "unambiguous re" and "parses re s ps"
  shows "matchItems re s = Some ps"
proof -
  from matchItems_complete [OF assms(2)] obtain qs where q: "matchItems re s = Some qs"
    by auto
  from parses_unique [OF assms(1) matchItems_sound [OF q] assms(2)] q show ?thesis by simp
qed

section \<open>Properties of slugs\<close>

subsection \<open>Words\<close>

lemma wordsOf_dropWhile: "wordsOf (dropWhile isWs s) = wordsOf s"
  by (subst (1 2) wordsOf.simps) simp

lemma wordsOf_Nil: "wordsOf [] = []"
  by (subst wordsOf.simps) simp

lemma wordsOf_all_ws: "\<forall>c\<in>set s. isWs c \<Longrightarrow> wordsOf s = []"
proof -
  assume "\<forall>c\<in>set s. isWs c"
  then have "dropWhile isWs s = []" by simp
  then show ?thesis by (subst wordsOf.simps) (simp only: list.case)
qed

lemma wordsOf_ws_Cons: "isWs y \<Longrightarrow> wordsOf (y # r) = wordsOf (dropWhile isWs r)"
  using wordsOf_dropWhile [of "y # r"] by simp

lemma wordsOf_Cons:
  "\<not> isWs x \<Longrightarrow>
   wordsOf (x # t) = (x # takeWhile (\<lambda>c. \<not> isWs c) t) # wordsOf (dropWhile (\<lambda>c. \<not> isWs c) t)"
  by (subst wordsOf.simps) simp

lemma splitWs_Cons_all:
  "\<not> isWs x \<Longrightarrow> \<forall>c\<in>set t. \<not> isWs c \<Longrightarrow> splitWs (x # t) = [x # t]"
proof -
  assume "\<not> isWs x" and "\<forall>c\<in>set t. \<not> isWs c"
  then have d: "dropWhile (\<lambda>c. \<not> isWs c) (x # t) = []" by simp
  show ?thesis by (subst splitWs.simps) (simp only: d list.case)
qed

lemma splitWs_Cons_ws:
  "\<not> isWs x \<Longrightarrow> dropWhile (\<lambda>c. \<not> isWs c) t = y # r \<Longrightarrow>
   splitWs (x # t) = (x # takeWhile (\<lambda>c. \<not> isWs c) t) # splitWs (dropWhile isWs r)"
  by (subst splitWs.simps) simp

lemma splitWs_Nil: "splitWs [] = [[]]"
  by (subst splitWs.simps) simp

lemma splitWs_tight: "tight t \<Longrightarrow> splitWs t = wordsOf t"
proof (induction t rule: length_induct)
  case (1 t)
  from "1.prems" obtain x t' where t: "t = x # t'" and x: "\<not> isWs x"
    by (cases t) (auto simp: tight_def)
  show ?case
  proof (cases "dropWhile (\<lambda>c. \<not> isWs c) t'")
    case Nil
    then have all: "\<forall>c\<in>set t'. \<not> isWs c" by simp
    then have tw: "takeWhile (\<lambda>c. \<not> isWs c) t' = t'" by simp
    have "splitWs t = [t]" unfolding t using x all by (rule splitWs_Cons_all)
    moreover have "wordsOf t = [t]" unfolding t wordsOf_Cons [OF x] tw Nil wordsOf_Nil ..
    ultimately show ?thesis by simp
  next
    case (Cons y r)
    then have y: "isWs y" using hd_dropWhile [of "\<lambda>c. \<not> isWs c" t'] by auto
    let ?r = "dropWhile isWs r"
    have t': "t' = takeWhile (\<lambda>c. \<not> isWs c) t' @ y # r"
      using Cons takeWhile_dropWhile_id [of "\<lambda>c. \<not> isWs c" t'] by simp
    then have last: "last t = last (y # r)"
      using t by (metis last_ConsR last_appendR list.distinct(1) append_is_Nil_conv)
    have ne: "?r \<noteq> []"
    proof
      assume "?r = []"
      then have "\<forall>c\<in>set r. isWs c" by (simp add: dropWhile_eq_Nil_conv)
      with y have "isWs (last (y # r))" by (cases r) auto
      with last "1.prems" show False by (simp add: tight_def)
    qed
    then have "r \<noteq> []" by auto
    have "last ?r = last r" using ne by (metis last_appendR takeWhile_dropWhile_id)
    with last \<open>r \<noteq> []\<close> have "last ?r = last t" by simp
    with ne "1.prems" have "tight ?r"
      using hd_dropWhile [OF ne] by (simp add: tight_def)
    moreover have "length ?r < length t"
    proof -
      have "length ?r \<le> length r" by (rule length_dropWhile_le)
      also have "\<dots> < length t'" using arg_cong [OF t', of length] by simp
      finally show ?thesis using t by simp
    qed
    ultimately have "splitWs ?r = wordsOf ?r" using "1.IH" by blast
    with Cons x y t show ?thesis
      by (simp only: splitWs_Cons_ws [OF x Cons] wordsOf_Cons [OF x] wordsOf_ws_Cons [OF y])
  qed
qed

lemma trim_tight: "trim v = [] \<or> tight (trim v)"
proof (cases "trim v = []")
  case True
  then show ?thesis by simp
next
  case False
  let ?a = "dropWhile isWs v"
  let ?b = "dropWhile isWs (rev ?a)"
  from False have b: "?b \<noteq> []" by (simp add: trim_def)
  have a: "?a \<noteq> []"
  proof
    assume "?a = []"
    then have "?b = []" by (simp only: rev.simps dropWhile.simps)
    with b show False by simp
  qed
  have "last (trim v) = hd ?b" using b by (simp add: trim_def last_rev)
  then have 1: "\<not> isWs (last (trim v))" using hd_dropWhile [OF b] by simp
  have "rev ?a = takeWhile isWs (rev ?a) @ ?b" by simp
  then have "?a = rev ?b @ rev (takeWhile isWs (rev ?a))"
    by (metis rev_append rev_rev_ident)
  then have "hd ?a = hd (rev ?b)" using b by (metis hd_append2 rev_is_Nil_conv)
  then have 2: "\<not> isWs (hd (trim v))" using hd_dropWhile [OF a] by (simp add: trim_def)
  from False 1 2 show ?thesis by (simp add: tight_def)
qed

lemma wordsOf_append_ws:
  "\<forall>c\<in>set w. isWs c \<Longrightarrow> wordsOf (u @ w) = wordsOf u"
proof (induction u rule: length_induct)
  case (1 u)
  show ?case
  proof (cases "dropWhile isWs u")
    case Nil
    then have "\<forall>c\<in>set u. isWs c" by simp
    moreover from this have "\<forall>c\<in>set (u @ w). isWs c" using "1.prems" by auto
    ultimately show ?thesis by (simp only: wordsOf_all_ws)
  next
    case (Cons x r)
    then have x: "\<not> isWs x" using hd_dropWhile [of isWs u] by auto
    have u: "u = takeWhile isWs u @ x # r" using Cons takeWhile_dropWhile_id [of isWs u] by simp
    have "dropWhile isWs (u @ w) = x # r @ w"
      by (subst u) (auto simp: x dropWhile_append3 dest: set_takeWhileD)
    then have "wordsOf (u @ w) = wordsOf (x # (r @ w))"
      using wordsOf_dropWhile [of "u @ w"] by simp
    also have "\<dots> = (x # takeWhile (\<lambda>c. \<not> isWs c) (r @ w)) # wordsOf (dropWhile (\<lambda>c. \<not> isWs c) (r @ w))"
      using x by (rule wordsOf_Cons)
    also have "takeWhile (\<lambda>c. \<not> isWs c) (r @ w) = takeWhile (\<lambda>c. \<not> isWs c) r"
      using "1.prems" by (cases w) (simp_all add: takeWhile_tail)
    also have "dropWhile (\<lambda>c. \<not> isWs c) (r @ w) = dropWhile (\<lambda>c. \<not> isWs c) r @ w"
      using "1.prems" by (cases w) (simp_all add: dropWhile_append3)
    also have "wordsOf (dropWhile (\<lambda>c. \<not> isWs c) r @ w) = wordsOf (dropWhile (\<lambda>c. \<not> isWs c) r)"
    proof -
      have "length (dropWhile (\<lambda>c. \<not> isWs c) r) \<le> length r" by (rule length_dropWhile_le)
      also have "\<dots> < length u" using arg_cong [OF u, of length] by simp
      finally show ?thesis using "1.IH" "1.prems" by blast
    qed
    also have "(x # takeWhile (\<lambda>c. \<not> isWs c) r) # wordsOf (dropWhile (\<lambda>c. \<not> isWs c) r) = wordsOf (x # r)"
      using x by (rule wordsOf_Cons [symmetric])
    also have "\<dots> = wordsOf u" using wordsOf_dropWhile [of u] Cons by simp
    finally show ?thesis .
  qed
qed

lemma wordsOf_trim: "wordsOf (trim v) = wordsOf v"
proof -
  let ?a = "dropWhile isWs v"
  have "rev ?a = takeWhile isWs (rev ?a) @ dropWhile isWs (rev ?a)" by simp
  then have "?a = trim v @ rev (takeWhile isWs (rev ?a))"
    unfolding trim_def by (metis rev_append rev_rev_ident)
  moreover have "\<forall>c\<in>set (rev (takeWhile isWs (rev ?a))). isWs c"
    by (auto dest: set_takeWhileD)
  ultimately have "wordsOf ?a = wordsOf (trim v)" using wordsOf_append_ws by metis
  then show ?thesis by (simp add: wordsOf_dropWhile)
qed

lemma splitWs_trim:
  "splitWs (trim v) = (case wordsOf v of [] \<Rightarrow> [[]] | w # ws \<Rightarrow> w # ws)"
proof (cases "trim v = []")
  case True
  then have "wordsOf v = []" using wordsOf_trim [of v] by (simp add: wordsOf_Nil)
  with True show ?thesis by (simp add: splitWs_Nil)
next
  case False
  with trim_tight [of v] have t: "tight (trim v)" by simp
  then have "splitWs (trim v) = wordsOf v" by (simp add: splitWs_tight wordsOf_trim)
  moreover have "wordsOf v \<noteq> []"
  proof -
    from t obtain x t' where "trim v = x # t'" "\<not> isWs x" by (cases "trim v") (auto simp: tight_def)
    then have "wordsOf (trim v) \<noteq> []" by (simp add: wordsOf_Cons)
    then show ?thesis by (simp add: wordsOf_trim)
  qed
  ultimately show ?thesis by (cases "wordsOf v") simp_all
qed

lemma slugify_refines: "slugify t = slugifySpec t"
proof -
  let ?v = "filter keepSlug (toLowerCase t)"
  show ?thesis
  proof (cases "wordsOf ?v")
    case Nil
    then show ?thesis by (simp add: slugify_def slugifySpec_def splitWs_trim)
  next
    case (Cons w ws)
    then show ?thesis by (simp add: slugify_def slugifySpec_def splitWs_trim)
  qed
qed

subsection \<open>Character classes\<close>

lemma code_dash: "code CHR ''-'' = 45" by (simp add: code_def)
lemma code_space: "code CHR '' '' = 32" by (simp add: code_def)
lemma code_slash: "code CHR ''/'' = 47" by (simp add: code_def)

lemma alnum_slug: "isAlnum c \<Longrightarrow> isSlugChar c"
  by (auto simp: isAlnum_def isSlugChar_def)


lemma alnum_not_dash: "isAlnum c \<Longrightarrow> c \<noteq> CHR ''-''"
  by (auto simp: isAlnum_def isLower_def isDigit_def code_dash)

lemma keep_not_ws: "keepSlug c \<Longrightarrow> \<not> isWs c \<Longrightarrow> isAlnum c"
  by (auto simp: keepSlug_def isAlnum_def isWs_def code_space)

lemma alnum_keep: "isAlnum c \<Longrightarrow> keepSlug c"
  by (auto simp: isAlnum_def keepSlug_def)




subsection \<open>Words and joins\<close>

lemma wordsOf_pieces:
  "w \<in> set (wordsOf s) \<Longrightarrow> w \<noteq> [] \<and> (\<forall>c\<in>set w. \<not> isWs c \<and> c \<in> set s)"
proof (induction s arbitrary: w rule: length_induct)
  case (1 s)
  show ?case
  proof (cases "dropWhile isWs s")
    case Nil
    then have "wordsOf s = []" by (subst wordsOf.simps) (simp only: list.case)
    with "1.prems" show ?thesis by simp
  next
    case (Cons x r)
    let ?t = "dropWhile (\<lambda>c. \<not> isWs c) r"
    have x: "\<not> isWs x" using Cons hd_dropWhile [of isWs s] by auto
    have sub: "set (x # r) \<subseteq> set s" using Cons set_dropWhileD [of _ isWs s] by auto
    have w: "wordsOf s = (x # takeWhile (\<lambda>c. \<not> isWs c) r) # wordsOf ?t"
      by (subst wordsOf.simps) (simp only: Cons list.case)
    have "length ?t \<le> length r" by (rule length_dropWhile_le)
    also have "\<dots> < length (dropWhile isWs s)" using Cons by simp
    also have "\<dots> \<le> length s" by (rule length_dropWhile_le)
    finally have len: "length ?t < length s" .
    from "1.prems" w consider "w = x # takeWhile (\<lambda>c. \<not> isWs c) r" | "w \<in> set (wordsOf ?t)"
      by auto
    then show ?thesis
    proof cases
      case 1
      then show ?thesis using x sub by (auto dest: set_takeWhileD)
    next
      case 2
      with "1.IH" len have "w \<noteq> [] \<and> (\<forall>c\<in>set w. \<not> isWs c \<and> c \<in> set ?t)" by blast
      moreover have "set ?t \<subseteq> set r" by (auto dest: set_dropWhileD)
      ultimately show ?thesis using sub by auto
    qed
  qed
qed


lemma set_join: "set (join sep ws) \<subseteq> set sep \<union> \<Union> (set ` set ws)"
  by (induction sep ws rule: join.induct) auto

lemma filter_join:
  "\<forall>w\<in>set ws. \<forall>c\<in>set w. P c \<Longrightarrow> \<forall>c\<in>set sep. \<not> P c \<Longrightarrow>
   filter P (join sep ws) = concat ws"
  by (induction sep ws rule: join.induct) (auto simp: filter_id_conv)

lemma count_join:
  "\<forall>w\<in>set ws. CHR ''-'' \<notin> set w \<Longrightarrow>
   length (filter (\<lambda>c. c = CHR ''-'') (join ''-'' ws)) = length ws - 1"
  by (induction "''-''" ws rule: join.induct) (auto simp: filter_empty_conv)

subsection \<open>The shape of a slug\<close>

lemma slugify_join: "slugify t = join ''-'' (slugWords t)"
  by (simp add: slugify_refines slugifySpec_def slugWords_def)

lemma slugWords_alnum:
  assumes "w \<in> set (slugWords t)"
  shows "w \<noteq> [] \<and> list_all isAlnum w"
proof -
  from assms have "w \<in> set (wordsOf (filter keepSlug (toLowerCase t)))"
    unfolding slugWords_def by (rule in_set_takeD)
  from wordsOf_pieces [OF this] show ?thesis
    by (auto simp: list_all_iff intro: keep_not_ws)
qed

lemma slugWords_length: "length (slugWords t) \<le> 5"
  by (simp add: slugWords_def)

lemma slugify_chars: "list_all isSlugChar (slugify t)"
proof -
  have "c \<in> set (slugify t) \<Longrightarrow> isSlugChar c" for c
  proof -
    assume "c \<in> set (slugify t)"
    with set_join [of "''-''" "slugWords t"] have "c = CHR ''-'' \<or> (\<exists>w\<in>set (slugWords t). c \<in> set w)"
      by (auto simp: slugify_join)
    then show ?thesis
      using slugWords_alnum [of _ t] by (auto simp: list_all_iff isSlugChar_def isAlnum_def)
  qed
  then show ?thesis by (simp add: list_all_iff)
qed

lemma slugify_hyphens: "length (filter (\<lambda>c. c = CHR ''-'') (slugify t)) \<le> 4"
proof -
  have "\<forall>w\<in>set (slugWords t). CHR ''-'' \<notin> set w"
    using slugWords_alnum [of _ t] alnum_not_dash by (auto simp: list_all_iff)
  from count_join [OF this] slugWords_length [of t] show ?thesis
    by (simp add: slugify_join)
qed


section \<open>Properties of link detection\<close>

lemma slash_classes:
  "\<not> isLower CHR ''/''" "\<not> isUpper CHR ''/''" "\<not> isDigit CHR ''/''" "\<not> isSlugChar CHR ''/''"
  by (simp_all add: isLower_def isUpper_def isDigit_def isSlugChar_def code_def)

lemma dash_classes:
  "\<not> isLower CHR ''-''" "\<not> isUpper CHR ''-''" "\<not> isDigit CHR ''-''" "isSlugChar CHR ''-''"
  by (simp_all add: isLower_def isUpper_def isDigit_def isSlugChar_def code_def)

lemma upper_not_slug: "isUpper c \<Longrightarrow> \<not> isSlugChar c"
  by (auto simp: isUpper_def isSlugChar_def isLower_def isDigit_def code_dash)

lemma digit_slug: "isDigit c \<Longrightarrow> isSlugChar c"
  by (simp add: isSlugChar_def)

lemma unambiguous_linkedRe: "unambiguous linkedRe"
  by (simp add: linkedRe_def slash_classes dash_classes)

lemma linkedShape_parses:
  "linkedShape b n p d r \<Longrightarrow> parses linkedRe b [n, ''/'', p, ''-'', d, ''-'', r]"
  unfolding linkedShape_def parses_def linkedRe_def by simp

lemma parses_linkedShape:
  assumes "parses linkedRe b ps"
  shows "\<exists>n p d r. ps = [n, ''/'', p, ''-'', d, ''-'', r] \<and> linkedShape b n p d r"
proof -
  from assms obtain n s1 p s2 d s3 r where ps: "ps = [n, s1, p, s2, d, s3, r]"
    and ok: "pieceOk (Plus isLower) n" "pieceOk (Lit CHR ''/'') s1" "pieceOk (Plus isUpper) p"
      "pieceOk (Lit CHR ''-'') s2" "pieceOk (Plus isDigit) d" "pieceOk (Lit CHR ''-'') s3"
      "pieceOk (Plus isSlugChar) r"
    and b: "concat ps = b"
    by (auto simp: parses_def linkedRe_def list_all2_Cons1)
  then have "ps = [n, ''/'', p, ''-'', d, ''-'', r] \<and> linkedShape b n p d r"
    by (auto simp: linkedShape_def)
  then show ?thesis by blast
qed

lemma isAlreadyLinked_shape:
  assumes "linkedShape b n p d r"
  shows "isAlreadyLinked b = \<lparr>linked = True, issueId = Some (p @ ''-'' @ d)\<rparr>"
proof -
  from matchItems_parses [OF unambiguous_linkedRe linkedShape_parses [OF assms]]
  show ?thesis by (simp add: isAlreadyLinked_def)
qed

lemma isAlreadyLinked_cases:
  "isAlreadyLinked b = \<lparr>linked = False, issueId = None\<rparr> \<or>
   (\<exists>n p d r. linkedShape b n p d r)"
proof (cases "matchItems linkedRe b")
  case None
  then show ?thesis by (simp add: isAlreadyLinked_def)
next
  case (Some ps)
  from parses_linkedShape [OF matchItems_sound [OF Some]] show ?thesis by blast
qed

lemma linked_shape:
  "linked (isAlreadyLinked b) \<Longrightarrow> \<exists>n p d r. linkedShape b n p d r"
  using isAlreadyLinked_cases [of b] by auto

subsection \<open>Branch names\<close>

lemma test_lower: "test [Plus isLower] g \<Longrightarrow> g \<noteq> [] \<and> list_all isLower g"
proof -
  assume "test [Plus isLower] g"
  then obtain ps where "matchItems [Plus isLower] g = Some ps" by (auto simp: test_def)
  from matchItems_sound [OF this] show ?thesis
    by (auto simp: parses_def list_all2_Cons1)
qed

lemma test_generic:
  assumes "test (issueRe None) i"
  shows "\<exists>p d. i = p @ ''-'' @ d \<and> p \<noteq> [] \<and> list_all isUpper p \<and> d \<noteq> [] \<and> list_all isDigit d"
proof -
  from assms obtain ps where "matchItems [Plus isUpper, Lit CHR ''-'', Plus isDigit] i = Some ps"
    by (auto simp: test_def issueRe_def)
  from matchItems_sound [OF this] obtain p d where "i = p @ ''-'' @ d"
    "pieceOk (Plus isUpper) p" "pieceOk (Plus isDigit) d"
    by (auto simp: parses_def list_all2_Cons1)
  then have "i = p @ ''-'' @ d \<and> p \<noteq> [] \<and> list_all isUpper p \<and> d \<noteq> [] \<and> list_all isDigit d"
    by simp
  then show ?thesis by blast
qed

lemma branch_linked:
  assumes g: "test [Plus isLower] g" and i: "test (issueRe None) (identifier i)"
    and s: "slugify (title i) \<noteq> []"
  shows "isAlreadyLinked (branchName g i) = \<lparr>linked = True, issueId = Some (identifier i)\<rparr>"
proof -
  from test_generic [OF i] obtain p d where pd: "identifier i = p @ ''-'' @ d"
    "p \<noteq> []" "list_all isUpper p" "d \<noteq> []" "list_all isDigit d" by blast
  with test_lower [OF g] s slugify_chars [of "title i"]
  have "linkedShape (branchName g i) g p d (slugify (title i))"
    by (simp add: linkedShape_def branchName_def)
  from isAlreadyLinked_shape [OF this] pd(1) show ?thesis by simp
qed

lemma nonempty_snoc: "xs \<noteq> [] \<Longrightarrow> \<exists>ys y. xs = ys @ [y]"
  by (cases xs rule: rev_cases) auto

lemma branch_empty_slug:
  assumes i: "test (issueRe None) (identifier i)" and s: "slugify (title i) = []"
  shows "\<not> linked (isAlreadyLinked (branchName g i))"
proof
  let ?b = "branchName g i"
  assume "linked (isAlreadyLinked ?b)"
  from linked_shape [OF this] obtain n p d r where sh: "linkedShape ?b n p d r" by blast
  from test_generic [OF i] obtain P N where PN: "identifier i = P @ ''-'' @ N"
    "P \<noteq> []" "list_all isUpper P" "N \<noteq> []" "list_all isDigit N" by blast
  from nonempty_snoc [OF PN(2)] obtain P' u where P: "P = P' @ [u]" by blast
  from sh have "p \<noteq> []" by (simp add: linkedShape_def)
  from nonempty_snoc [OF this] obtain p' v where p: "p = p' @ [v]" by blast
  let ?X1 = "CHR ''-'' # rev N @ [CHR ''-'']"
  let ?X2 = "rev r @ CHR ''-'' # rev d @ [CHR ''-'']"
  have e1: "rev ?b = ?X1 @ u # (rev P' @ CHR ''/'' # rev g)"
    by (simp add: branchName_def s PN(1) P)
  have e2: "rev ?b = ?X2 @ v # (rev p' @ CHR ''/'' # rev n)"
    using sh by (simp add: linkedShape_def p)
  have a1: "list_all isSlugChar ?X1"
    using PN(5) by (auto simp: list_all_iff dash_classes digit_slug)
  have a2: "list_all isSlugChar ?X2"
    using sh by (auto simp: linkedShape_def list_all_iff dash_classes digit_slug)
  have u: "\<not> isSlugChar u" using PN(3) P by (simp add: upper_not_slug)
  have v: "\<not> isSlugChar v" using sh p by (simp add: linkedShape_def upper_not_slug)
  have "takeWhile isSlugChar (rev ?b) = ?X1" unfolding e1 using a1 u by (rule takeWhile_piece)
  moreover have "takeWhile isSlugChar (rev ?b) = ?X2" unfolding e2 using a2 v by (rule takeWhile_piece)
  ultimately have "?X1 = ?X2" by simp
  then have "rev ?X1 = rev ?X2" by (rule arg_cong)
  then have eq: "N @ CHR ''-'' # [] = d @ CHR ''-'' # r" by simp
  have "takeWhile isDigit (N @ CHR ''-'' # []) = N"
    using PN(5) dash_classes(3) by (rule takeWhile_piece)
  moreover have "takeWhile isDigit (d @ CHR ''-'' # r) = d"
    using sh dash_classes(3) by (simp add: linkedShape_def takeWhile_piece)
  ultimately have "N = d" using eq by simp
  with eq have "r = []" by simp
  with sh show False by (simp add: linkedShape_def)
qed

lemma branch_bad_name:
  assumes g: "\<exists>c\<in>set g. \<not> isLower c"
  shows "\<not> linked (isAlreadyLinked (branchName g i))"
proof
  let ?b = "branchName g i"
  assume "linked (isAlreadyLinked ?b)"
  from linked_shape [OF this] obtain n p d r where sh: "linkedShape ?b n p d r" by blast
  from split_list_first_prop [OF g] obtain g1 c g2 where gs: "g = g1 @ c # g2"
    and c: "\<not> isLower c" and g1: "\<forall>y\<in>set g1. \<not> \<not> isLower y" by blast
  let ?R1 = "p @ CHR ''-'' # d @ CHR ''-'' # r"
  let ?R2 = "g2 @ CHR ''/'' # identifier i @ CHR ''-'' # slugify (title i)"
  have b1: "?b = n @ CHR ''/'' # ?R1" using sh by (simp add: linkedShape_def)
  have b2: "?b = g1 @ c # ?R2" by (simp add: branchName_def gs)
  have n: "list_all isLower n" using sh by (simp add: linkedShape_def)
  have "takeWhile isLower (n @ CHR ''/'' # ?R1) = n"
    using n slash_classes(1) by (rule takeWhile_piece)
  moreover have "list_all isLower g1" using g1 by (simp add: list_all_iff)
  then have "takeWhile isLower (g1 @ c # ?R2) = g1"
    using c by (rule takeWhile_piece)
  moreover have "n @ CHR ''/'' # ?R1 = g1 @ c # ?R2" using b1 b2 by (rule trans [OF sym])
  ultimately have ng: "n = g1" by metis
  have "n @ CHR ''/'' # ?R1 = g1 @ c # ?R2" using b1 b2 by (rule trans [OF sym])
  then have "?R1 = ?R2" unfolding ng by (simp only: append_same_eq same_append_eq list.inject)
  then have "set ?R1 = set ?R2" by (rule arg_cong)
  then have "CHR ''/'' \<in> set ?R1" by simp
  then show False
    using sh slash_classes by (auto simp: linkedShape_def list_all_iff)
qed

section \<open>Claims about the pure functions\<close>

text \<open>
  C5. For every title, \<open>slugify\<close> is the lower-cased title, stripped of every character
  outside \<open>[a-z0-9 ]\<close>, cut into its words, of which the first five are joined with
  dashes. It is a total function, the empty title gives the empty slug, every character
  of a slug is in \<open>[a-z0-9-]\<close>, a slug is made of at most five non-empty words of
  \<open>[a-z0-9]\<close> separated by single dashes (so it holds at most four dashes), and
  \<open>slugify("Fix Login Bug!!")\<close> is \<open>"fix-login-bug"\<close>.
\<close>

theorem slugify_pipeline:
  "slugify t = slugifySpec t \<and>
   slugify '''' = '''' \<and>
   list_all isSlugChar (slugify t) \<and>
   (\<exists>ws. length ws \<le> 5 \<and> list_all (\<lambda>w. w \<noteq> [] \<and> list_all isAlnum w) ws \<and>
      slugify t = join ''-'' ws) \<and>
   length (filter (\<lambda>c. c = CHR ''-'') (slugify t)) \<le> 4 \<and>
   slugify ''Fix Login Bug!!'' = ''fix-login-bug''"
proof -
  have "list_all (\<lambda>w. w \<noteq> [] \<and> list_all isAlnum w) (slugWords t)"
    using slugWords_alnum [of _ t] by (simp add: list_all_iff)
  then have "\<exists>ws. length ws \<le> 5 \<and> list_all (\<lambda>w. w \<noteq> [] \<and> list_all isAlnum w) ws \<and>
      slugify t = join ''-'' ws"
    using slugWords_length [of t] slugify_join [of t] by blast
  moreover have "slugify '''' = ''''" by code_simp
  moreover have "slugify ''Fix Login Bug!!'' = ''fix-login-bug''" by code_simp
  ultimately show ?thesis
    using slugify_refines [of t] slugify_chars [of t] slugify_hyphens [of t] by blast
qed




text \<open>
  C7. \<open>isAlreadyLinked\<close> is a total function of the branch name. On a name of the shape
  \<open>^[a-z]+/([A-Z]+-[0-9]+)-[a-z0-9-]+$\<close> it answers linked, with the prefix-dash-number
  group as the issue id; on every other name it answers not linked, with no issue id.
  \<open>"alice/ENG-142-fix-login"\<close> is linked to \<open>"ENG-142"\<close> and \<open>"main"\<close> is not linked.
\<close>

theorem isAlreadyLinked_correct:
  "(linkedShape branch name pre num rest \<longrightarrow>
      isAlreadyLinked branch = \<lparr>linked = True, issueId = Some (pre @ ''-'' @ num)\<rparr>) \<and>
   ((\<forall>n p d r. \<not> linkedShape branch n p d r) \<longrightarrow>
      isAlreadyLinked branch = \<lparr>linked = False, issueId = None\<rparr>) \<and>
   isAlreadyLinked ''alice/ENG-142-fix-login'' = \<lparr>linked = True, issueId = Some ''ENG-142''\<rparr> \<and>
   isAlreadyLinked ''main'' = \<lparr>linked = False, issueId = None\<rparr>"
proof -
  have "isAlreadyLinked ''alice/ENG-142-fix-login'' = \<lparr>linked = True, issueId = Some ''ENG-142''\<rparr>"
    by code_simp
  moreover have "isAlreadyLinked ''main'' = \<lparr>linked = False, issueId = None\<rparr>"
    by code_simp
  ultimately show ?thesis
    using isAlreadyLinked_shape [of branch name pre num rest] isAlreadyLinked_cases [of branch]
    by blast
qed

theorem isAlreadyLinked_correct_witness:
  "linkedShape ''bob/AB-7-x'' ''bob'' ''AB'' ''7'' ''x'' \<and>
   isAlreadyLinked ''bob/AB-7-x'' = \<lparr>linked = True, issueId = Some ''AB-7''\<rparr> \<and>
   (\<forall>n p d r. \<not> linkedShape ''master'' n p d r) \<and>
   isAlreadyLinked ''master'' = \<lparr>linked = False, issueId = None\<rparr>"
proof -
  have sh: "linkedShape ''bob/AB-7-x'' ''bob'' ''AB'' ''7'' ''x''"
    by (simp add: linkedShape_def isLower_def isUpper_def isDigit_def isSlugChar_def code_def)
  have m: "\<not> linked (isAlreadyLinked ''master'')" by code_simp
  have no: "\<forall>n p d r. \<not> linkedShape ''master'' n p d r"
  proof (intro allI notI)
    fix n p d r assume "linkedShape ''master'' n p d r"
    with isAlreadyLinked_correct [of "''master''" n p d r] m show False by simp
  qed
  from sh no isAlreadyLinked_correct [of "''bob/AB-7-x''" "''bob''" "''AB''" "''7''" "''x''"]
    isAlreadyLinked_correct [of "''master''"]
  show ?thesis by simp
qed

text \<open>
  C10. The branch name computed from a git name in \<open>^[a-z]+$\<close>, an issue identifier in
  \<open>^[A-Z]+-[0-9]+$\<close> and a title with a non-empty slug is detected as linked, with that
  identifier as the issue id. With such an identifier and an empty slug, or with a git
  name that holds a character outside \<open>[a-z]\<close>, the computed name is not detected as
  linked.
\<close>

theorem branch_name_round_trip:
  "(test [Plus isLower] gitName \<and> test (issueRe None) (identifier i) \<and> slugify (title i) \<noteq> [] \<longrightarrow>
      isAlreadyLinked (branchName gitName i) = \<lparr>linked = True, issueId = Some (identifier i)\<rparr>) \<and>
   (test (issueRe None) (identifier i) \<and> slugify (title i) = [] \<longrightarrow>
      \<not> linked (isAlreadyLinked (branchName gitName i))) \<and>
   ((\<exists>c\<in>set gitName. \<not> isLower c) \<longrightarrow>
      \<not> linked (isAlreadyLinked (branchName gitName i)))"
  using branch_linked [of gitName i] branch_empty_slug [of i gitName] branch_bad_name [of gitName i]
  by blast

theorem branch_name_round_trip_witness:
  "test [Plus isLower] ''alice'' \<and> test (issueRe None) ''ENG-142'' \<and> slugify ''Fix login bug'' \<noteq> [] \<and>
   isAlreadyLinked (branchName ''alice'' \<lparr>identifier = ''ENG-142'', title = ''Fix login bug''\<rparr>) =
     \<lparr>linked = True, issueId = Some ''ENG-142''\<rparr> \<and>
   slugify ''!!!'' = [] \<and>
   \<not> linked (isAlreadyLinked (branchName ''alice'' \<lparr>identifier = ''ENG-142'', title = ''!!!''\<rparr>)) \<and>
   (\<exists>c\<in>set ''j.doe''. \<not> isLower c) \<and>
   \<not> linked (isAlreadyLinked (branchName ''j.doe'' \<lparr>identifier = ''ENG-142'', title = ''Fix login bug''\<rparr>))"
proof -
  have 1: "test [Plus isLower] ''alice''" by code_simp
  have 2: "test (issueRe None) ''ENG-142''" by code_simp
  have 3: "slugify ''Fix login bug'' \<noteq> []" by code_simp
  have 4: "slugify ''!!!'' = []" by code_simp
  have 5: "\<exists>c\<in>set ''j.doe''. \<not> isLower c" by (simp add: isLower_def code_def)
  from 1 2 3 4 5
    branch_name_round_trip [of "''alice''" "\<lparr>identifier = ''ENG-142'', title = ''Fix login bug''\<rparr>"]
    branch_name_round_trip [of "''alice''" "\<lparr>identifier = ''ENG-142'', title = ''!!!''\<rparr>"]
    branch_name_round_trip [of "''j.doe''" "\<lparr>identifier = ''ENG-142'', title = ''Fix login bug''\<rparr>"]
  show ?thesis by simp
qed

section \<open>Properties of the command line\<close>

lemma argsToTokens_plain:
  "plainWord a \<Longrightarrow> argsToTokens (a # rest) = PositionalTok a # argsToTokens rest"
proof -
  assume "plainWord a"
  then have "a \<noteq> ''--''" "\<not> isLoneShortOption a" "\<not> isShortOptionGroup a"
    "\<not> isLoneLongOption a" "\<not> isLongOptionAndValue a"
    by (cases a; auto simp: plainWord_def isLoneShortOption_def isShortOptionGroup_def
        isLoneLongOption_def isLongOptionAndValue_def)+
  then show ?thesis by (simp add: argsToTokens.simps(2))
qed

lemma argsToTokens_c:
  "argsToTokens (''-c'' # rest) = OptionTok ''c'' None # argsToTokens rest"
  by (simp add: argsToTokens.simps(2) isLoneShortOption_def findLongOptionForShort_def)

lemma argsToTokens_create:
  "argsToTokens (''--create'' # rest) = OptionTok ''create'' None # argsToTokens rest"
  by (simp add: argsToTokens.simps(2) isLoneShortOption_def isShortOptionGroup_def
      isLoneLongOption_def)

lemma not_plain: "\<not> plainWord ''-c''" "\<not> plainWord ''--create''"
  by (simp_all add: plainWord_def)

lemma storeTokens_flags:
  "n \<noteq> ''__proto__'' \<Longrightarrow>
   storeTokens (map (flagTok n) args) p =
     \<lparr>values = (if \<forall>a\<in>set args. plainWord a then values p else (values p)(n \<mapsto> VBool True)),
      positionals = positionals p @ filter plainWord args\<rparr>"
proof (induction args arbitrary: p)
  case Nil
  then show ?case by simp
next
  case (Cons a args)
  then show ?case
    by (cases "plainWord a") (auto simp: flagTok_def storeOption_def)
qed

lemma tokens_c:
  "\<forall>a\<in>set args. a = ''-c'' \<or> plainWord a \<Longrightarrow> argsToTokens args = map (flagTok ''c'') args"
  by (induction args)
    (auto simp: flagTok_def argsToTokens_plain argsToTokens_c not_plain argsToTokens.simps(1))

lemma tokens_create:
  "\<forall>a\<in>set args. a = ''--create'' \<or> plainWord a \<Longrightarrow>
   argsToTokens args = map (flagTok ''create'') args"
  by (induction args)
    (auto simp: flagTok_def argsToTokens_plain argsToTokens_create not_plain
      argsToTokens.simps(1))

lemma tokens_plain:
  "\<forall>a\<in>set args. plainWord a \<Longrightarrow> argsToTokens args = map PositionalTok args"
  by (induction args) (auto simp: argsToTokens_plain argsToTokens.simps(1))

lemma mode_c:
  assumes "\<forall>a\<in>set args. a = ''-c'' \<or> plainWord a" and "''-c'' \<in> set args"
  shows "determineMode (parseArgs args) =
     Create (orUndefined (trim (join '' '' (filter plainWord args))))"
proof -
  from assms(2) not_plain(1) have "\<not> (\<forall>a\<in>set args. plainWord a)" by blast
  then show ?thesis
    by (simp add: parseArgs_def tokens_c [OF assms(1)] storeTokens_flags storeDefault_def
        determineMode_def autoMode_def createMode_def arg_def)
qed

lemma mode_create:
  assumes "\<forall>a\<in>set args. a = ''--create'' \<or> plainWord a"
  shows "determineMode (parseArgs args) = determineMode (parseArgs (filter plainWord args))"
proof -
  have "\<forall>a\<in>set (filter plainWord args). a = ''--create'' \<or> plainWord a" by simp
  from tokens_create [OF this] tokens_create [OF assms] show ?thesis
    by (simp add: parseArgs_def storeTokens_flags storeDefault_def
        determineMode_def autoMode_def createMode_def arg_def)
qed

lemma mode_plain:
  assumes "\<forall>a\<in>set args. plainWord a"
  shows "determineMode (parseArgs args) =
     (if trim (join '' '' args) = [] then Interactive else Search (trim (join '' '' args)))"
proof -
  from assms have "\<forall>a\<in>set args. a = ''--create'' \<or> plainWord a" by simp
  from tokens_create [OF this] assms show ?thesis
    by (simp add: parseArgs_def storeTokens_flags storeDefault_def
        determineMode_def autoMode_def createMode_def arg_def filter_id_conv)
qed

subsection \<open>Blank arguments\<close>

lemma trim_Nil_iff: "trim s = [] \<longleftrightarrow> list_all isWs s"
proof
  assume "trim s = []"
  then have "\<forall>c\<in>set (dropWhile isWs s). isWs c" by (simp add: trim_def)
  then have "dropWhile isWs s = []"
    using hd_dropWhile [of isWs s] by (cases "dropWhile isWs s") auto
  then show "list_all isWs s" by (simp add: list_all_iff)
next
  assume "list_all isWs s"
  then have "dropWhile isWs s = []" by (simp add: list_all_iff)
  then show "trim s = []" by (simp only: trim_def rev.simps dropWhile.simps)
qed

lemma space_ws: "isWs CHR '' ''"
  by (simp add: isWs_def code_def)

lemma join_blank: "list_all isWs (join '' '' ps) \<longleftrightarrow> list_all (list_all isWs) ps"
  by (induction "'' ''" ps rule: join.induct) (auto simp: space_ws)

lemma arg_blank: "arg p = [] \<longleftrightarrow> list_all (list_all isWs) (positionals p)"
  by (simp add: arg_def trim_Nil_iff join_blank)

section \<open>Properties of a run\<close>

lemmas act_defs = bnd_def ret_def emit_def throw_def settle_def tracker_def gitExec_def
  ask_def askText_def

lemma loadTeamConfig_run:
  "loadTeamConfig r = (Inr (validConfig (cache r)), r\<lparr>trace := trace r @ [EvLoadConfig]\<rparr>)"
  by (simp add: loadTeamConfig_def act_defs)

lemma resolve_start:
  "newIssueRe w (cachedTeamKey r) = Inr re \<Longrightarrow>
   bnd loadTeamConfig (\<lambda>teamConfig.
     bnd (settle (newIssueRe w (map_option teamKey teamConfig))) f) r =
     f re (r\<lparr>trace := trace r @ [EvLoadConfig]\<rparr>)"
  by (simp add: bnd_def loadTeamConfig_run cachedTeamKey_def settle_def ret_def)

lemma resolve_search_direct:
  assumes "newIssueRe w (cachedTeamKey r) = Inr re" and "re q"
  shows "resolveIssue w a (Search q) r = resolveIssue w a (Direct q) r"
  using assms(2) by (simp add: resolveIssue_def resolve_start [OF assms(1)])

lemma resolve_direct_run:
  assumes "newIssueRe w (cachedTeamKey r) = Inr re"
  shows "resolveIssue w a (Direct q) r =
     (case getIssueByIdW w q of
        Inl f \<Rightarrow>
          (Inl (Failed f),
           r\<lparr>trace := trace r @ [EvLoadConfig, EvSpinStart (LookingUp q), EvTracker (GetIssueById q)]\<rparr>)
      | Inr None \<Rightarrow>
          (Inl (Failed (NotFoundError q)),
           r\<lparr>trace := trace r @ [EvLoadConfig, EvSpinStart (LookingUp q), EvTracker (GetIssueById q),
                                  EvSpinStop (IssueNotFound q)]\<rparr>)
      | Inr (Some i) \<Rightarrow>
          (Inr i,
           r\<lparr>trace := trace r @ [EvLoadConfig, EvSpinStart (LookingUp q), EvTracker (GetIssueById q),
                                  EvSpinStop (FoundIssue (identifier i) (title i))]\<rparr>))"
  unfolding resolveIssue_def resolve_start [OF assms]
  by (simp add: act_defs split: sum.splits option.splits)

lemma resolve_direct_calls:
  assumes "newIssueRe w (cachedTeamKey r) = Inr re"
  shows "filter isTrackerCall (newEvents (resolveIssue w a (Direct q)) r) = [EvTracker (GetIssueById q)]"
    and "filter isSearchCall (newEvents (resolveIssue w a (Direct q)) r) = []"
  by (simp_all add: newEvents_def resolve_direct_run [OF assms] isTrackerCall_def isSearchCall_def
      split: sum.splits option.splits)

lemma newIssueRe_cases:
  "newIssueRe w k = Inl SyntaxError \<or> (\<exists>re. newIssueRe w k = Inr re)"
  by (simp add: newIssueRe_def split: option.splits)

lemma refineMode_run:
  "fst (refineMode w m r) = Inr m \<or>
   (\<exists>x re. m = Search x \<and> newIssueRe w (cachedTeamKey r) = Inr re \<and> re x \<and>
      fst (refineMode w m r) = Inr (Direct x)) \<or>
   (\<exists>x. m = Search x \<and> newIssueRe w (cachedTeamKey r) = Inl SyntaxError \<and>
      fst (refineMode w m r) = Inl (Failed SyntaxError))"
proof (cases m)
  case (Search x)
  from newIssueRe_cases [of w "cachedTeamKey r"] show ?thesis
  proof
    assume e: "newIssueRe w (cachedTeamKey r) = Inl SyntaxError"
    then have "fst (refineMode w m r) = Inl (Failed SyntaxError)"
      by (simp add: Search refineMode_def bnd_def loadTeamConfig_run cachedTeamKey_def
          settle_def throw_def)
    with e Search show ?thesis by simp
  next
    assume "\<exists>re. newIssueRe w (cachedTeamKey r) = Inr re"
    then obtain re where re: "newIssueRe w (cachedTeamKey r) = Inr re" by blast
    then have "fst (refineMode w m r) = Inr (if re x then Direct x else m)"
      by (simp add: Search refineMode_def resolve_start [OF re] ret_def)
    with re Search show ?thesis by auto
  qed
qed (simp_all add: refineMode_def ret_def)

lemma updateStep_run:
  assumes "viewerIdW w = Inr v" and "statesW w (identifier i) = Inr sts"
  shows "filter isUpdateCall (newEvents (updateStep w i) r) =
     [EvTracker (UpdateIssue (identifier i)
        \<lparr>assigneeId = truthy v, stateId = truthy (findInProgress sts)\<rparr>)]"
  using assms
  by (simp add: updateStep_def newEvents_def act_defs isUpdateCall_def Let_def
      split: option.splits)

subsection \<open>Searching whatever the case\<close>

lemma prefixI_iff:
  "prefixI pat s \<longleftrightarrow> (\<exists>mid post. s = mid @ post \<and> map canonicalize mid = map canonicalize pat)"
proof (induction pat s rule: prefixI.induct)
  case (1 s)
  then show ?case by simp
next
  case (2 p ps)
  then show ?case by simp
next
  case (3 p ps c cs)
  show ?case
  proof
    assume "prefixI (p # ps) (c # cs)"
    with 3 obtain mid post where "cs = mid @ post" "map canonicalize mid = map canonicalize ps"
      and "canonicalize c = canonicalize p" by auto
    then have "c # cs = (c # mid) @ post \<and> map canonicalize (c # mid) = map canonicalize (p # ps)"
      by simp
    then show "\<exists>mid post. c # cs = mid @ post \<and> map canonicalize mid = map canonicalize (p # ps)"
      by blast
  next
    assume "\<exists>mid post. c # cs = mid @ post \<and> map canonicalize mid = map canonicalize (p # ps)"
    then obtain mid post where m: "c # cs = mid @ post"
      "map canonicalize mid = map canonicalize (p # ps)" by blast
    then obtain mid' where "mid = c # mid'" by (cases mid) auto
    with m have "cs = mid' @ post \<and> map canonicalize mid' = map canonicalize ps"
      "canonicalize c = canonicalize p" by auto
    with 3 show "prefixI (p # ps) (c # cs)" by auto
  qed
qed

lemma searchI_iff: "searchI pat s \<longleftrightarrow> containsNoCase pat s"
proof (induction s)
  case Nil
  then show ?case by (auto simp: containsNoCase_def prefixI_iff)
next
  case (Cons c cs)
  show ?case
  proof
    assume "searchI pat (c # cs)"
    then consider "prefixI pat (c # cs)" | "searchI pat cs" by auto
    then show "containsNoCase pat (c # cs)"
    proof cases
      case 1
      then obtain mid post where "c # cs = [] @ mid @ post"
        "map canonicalize mid = map canonicalize pat" by (auto simp: prefixI_iff)
      then show ?thesis unfolding containsNoCase_def by blast
    next
      case 2
      with Cons obtain pre mid post where "cs = pre @ mid @ post"
        "map canonicalize mid = map canonicalize pat" by (auto simp: containsNoCase_def)
      then have "c # cs = (c # pre) @ mid @ post \<and> map canonicalize mid = map canonicalize pat"
        by simp
      then show ?thesis unfolding containsNoCase_def by blast
    qed
  next
    assume "containsNoCase pat (c # cs)"
    then obtain pre mid post where m: "c # cs = pre @ mid @ post"
      "map canonicalize mid = map canonicalize pat" by (auto simp: containsNoCase_def)
    show "searchI pat (c # cs)"
    proof (cases pre)
      case Nil
      with m have "prefixI pat (c # cs)" unfolding prefixI_iff by auto
      then show ?thesis by simp
    next
      case (Cons x pre')
      with m have "cs = pre' @ mid @ post" by simp
      with m(2) have "containsNoCase pat cs" unfolding containsNoCase_def by blast
      with Cons.IH show ?thesis by simp
    qed
  qed
qed

lemma startedProgress_iff:
  "startedProgress s \<longleftrightarrow> stype s = ''started'' \<and> containsNoCase ''progress'' (sname s)"
  by (simp add: startedProgress_def searchI_iff)

subsection \<open>The choice of the in-progress state\<close>

lemma findInProgress_named:
  assumes "\<exists>s\<in>set sts. sname s = ''In Progress''"
  shows "\<exists>k<length sts. sname (sts ! k) = ''In Progress'' \<and>
           (\<forall>j<k. sname (sts ! j) \<noteq> ''In Progress'') \<and>
           findInProgress sts = Some (sid (sts ! k))"
proof -
  from assms obtain s where s: "find (\<lambda>s. sname s = ''In Progress'') sts = Some s"
    by (cases "find (\<lambda>s. sname s = ''In Progress'') sts") (auto simp: find_None_iff)
  then obtain k where "k < length sts" "sname (sts ! k) = ''In Progress''" "s = sts ! k"
    "\<forall>j<k. sname (sts ! j) \<noteq> ''In Progress''"
    unfolding find_Some_iff by blast
  with s show ?thesis by (auto simp: findInProgress_def)
qed

lemma findInProgress_fallback:
  assumes "\<forall>s\<in>set sts. sname s \<noteq> ''In Progress''" and "\<exists>s\<in>set sts. startedProgress s"
  shows "\<exists>k<length sts. startedProgress (sts ! k) \<and> (\<forall>j<k. \<not> startedProgress (sts ! j)) \<and>
           findInProgress sts = Some (sid (sts ! k))"
proof -
  from assms(1) have n: "find (\<lambda>s. sname s = ''In Progress'') sts = None"
    by (simp add: find_None_iff)
  from assms(2) obtain s where s: "find startedProgress sts = Some s"
    by (cases "find startedProgress sts") (auto simp: find_None_iff)
  then obtain k where "k < length sts" "startedProgress (sts ! k)" "s = sts ! k"
    "\<forall>j<k. \<not> startedProgress (sts ! j)"
    unfolding find_Some_iff by blast
  with s n show ?thesis by (auto simp: findInProgress_def)
qed

lemma findInProgress_none:
  assumes "\<forall>s\<in>set sts. sname s \<noteq> ''In Progress'' \<and> \<not> startedProgress s"
  shows "findInProgress sts = None"
proof -
  from assms have "find (\<lambda>s. sname s = ''In Progress'') sts = None"
    "find startedProgress sts = None"
    by (simp_all add: find_None_iff)
  then show ?thesis by (simp add: findInProgress_def)
qed

subsection \<open>The start of a run\<close>

lemma quiet_simps:
  "quiet []"
  "quiet (e # tr) = (\<not> isTrackerCall e \<and> \<not> isGitMutation e \<and> quiet tr)"
  "quiet (tr @ tr') = (quiet tr \<and> quiet tr')"
  by (auto simp: quiet_def)

lemma resolveName_run:
  "\<exists>res tr. resolveName w a r = (res, r\<lparr>trace := trace r @ tr\<rparr>) \<and> quiet tr \<and>
     ((\<exists>g. res = Inr g) \<or> res = Inl Cancelled \<and> promptGitNameW w = None)"
proof -
  let ?g = "firstNameOf (gitUserNameW w) a"
  have g: "getGitName w x r =
      (Inr (firstNameOf (gitUserNameW w) x), r\<lparr>trace := trace r @ [EvGit ConfigUserName]\<rparr>)" for x
    by (simp add: getGitName_def act_defs)
  show ?thesis
  proof (cases "?g = [] \<and> \<not> a")
    case True
    then have "resolveName w a r =
      (case promptGitNameW w of None \<Rightarrow> Inl Cancelled | Some s \<Rightarrow> Inr s,
       r\<lparr>trace := trace r @ [EvGit ConfigUserName, EvPrompt PromptGitName]\<rparr>)"
      by (auto simp: resolveName_def bnd_def g askText_def ask_def emit_def)
    moreover have "quiet [EvGit ConfigUserName, EvPrompt PromptGitName]"
      by (simp add: quiet_simps isTrackerCall_def isGitMutation_def)
    ultimately show ?thesis by (cases "promptGitNameW w") auto
  next
    case False
    then have "resolveName w a r = (Inr ?g, r\<lparr>trace := trace r @ [EvGit ConfigUserName]\<rparr>)"
      by (auto simp: resolveName_def bnd_def g ret_def)
    moreover have "quiet [EvGit ConfigUserName]"
      by (simp add: quiet_simps isTrackerCall_def isGitMutation_def)
    ultimately show ?thesis by blast
  qed
qed

lemma main_linked:
  assumes b: "currentBranchW w = Inr b" and l: "linked (isAlreadyLinked b)"
  shows "\<exists>res tr. main w \<lparr>trace = [], cache = c\<rparr> = (res, \<lparr>trace = tr, cache = c\<rparr>) \<and> quiet tr \<and>
     (res = Inr () \<and> tr \<noteq> [] \<and> last tr = statusEvent w b \<or>
      res = Inl Cancelled \<and> promptGitNameW w = None \<or>
      (\<exists>f. res = Inl (Failed f) \<and> loadApiKeyW w = Inl f))"
proof (cases "loadApiKeyW w")
  case (Inl f)
  then have "main w \<lparr>trace = [], cache = c\<rparr> = (Inl (Failed f), \<lparr>trace = [EvLoadApiKey], cache = c\<rparr>)"
    by (simp add: main_def Let_def act_defs)
  moreover have "quiet [EvLoadApiKey]" by (simp add: quiet_simps isTrackerCall_def isGitMutation_def)
  ultimately show ?thesis using Inl by auto
next
  case (Inr k)
  let ?a = "autoMode (parseArgs (argv w))"
  let ?r1 = "\<lparr>trace = [EvLoadApiKey], cache = c\<rparr>"
  from resolveName_run [of w ?a ?r1] obtain res tr where
    n: "resolveName w ?a ?r1 = (res, ?r1\<lparr>trace := trace ?r1 @ tr\<rparr>)" and q: "quiet tr"
    and p: "(\<exists>g. res = Inr g) \<or> res = Inl Cancelled \<and> promptGitNameW w = None" by blast
  from p show ?thesis
  proof
    assume "res = Inl Cancelled \<and> promptGitNameW w = None"
    moreover from this n Inr
    have "main w \<lparr>trace = [], cache = c\<rparr> = (Inl Cancelled, \<lparr>trace = EvLoadApiKey # tr, cache = c\<rparr>)"
      by (simp add: main_def Let_def bnd_def emit_def settle_def ret_def)
    moreover have "quiet (EvLoadApiKey # tr)"
      using q by (simp add: quiet_simps isTrackerCall_def isGitMutation_def)
    ultimately show ?thesis by auto
  next
    assume "\<exists>g. res = Inr g"
    then obtain g where g: "res = Inr g" by blast
    from n Inr g b l have "main w \<lparr>trace = [], cache = c\<rparr> =
        (Inr (), \<lparr>trace = EvLoadApiKey # tr @ [EvGit SymbolicRefHead, statusEvent w b], cache = c\<rparr>)"
      by (simp add: main_def Let_def bnd_def emit_def settle_def ret_def getCurrentBranch_def
          statusEvent_def)
    moreover have "quiet (EvLoadApiKey # tr @ [EvGit SymbolicRefHead, statusEvent w b])"
      using q by (simp add: quiet_simps isTrackerCall_def isGitMutation_def statusEvent_def)
    ultimately show ?thesis by auto
  qed
qed

lemma process_linked:
  assumes b: "currentBranchW w = Inr b" and l: "linked (isAlreadyLinked b)"
  shows "quiet (fst (process w))"
    and "loadApiKeyW w = Inr k \<Longrightarrow> snd (process w) = 0"
    and "loadApiKeyW w = Inr k \<Longrightarrow> promptGitNameW w = Some n \<Longrightarrow>
           fst (process w) \<noteq> [] \<and> last (fst (process w)) = statusEvent w b"
proof -
  from main_linked [OF b l, of "configFileW w"] obtain res tr where
    m: "main w \<lparr>trace = [], cache = configFileW w\<rparr> = (res, \<lparr>trace = tr, cache = configFileW w\<rparr>)"
    and q: "quiet tr"
    and c: "res = Inr () \<and> tr \<noteq> [] \<and> last tr = statusEvent w b \<or>
      res = Inl Cancelled \<and> promptGitNameW w = None \<or>
      (\<exists>f. res = Inl (Failed f) \<and> loadApiKeyW w = Inl f)" by blast
  from c m q show "quiet (fst (process w))"
    by (auto simp: process_def quiet_simps isTrackerCall_def isGitMutation_def)
  from c m show "loadApiKeyW w = Inr k \<Longrightarrow> snd (process w) = 0"
    by (auto simp: process_def)
  from c m show "loadApiKeyW w = Inr k \<Longrightarrow> promptGitNameW w = Some n \<Longrightarrow>
           fst (process w) \<noteq> [] \<and> last (fst (process w)) = statusEvent w b"
    by (auto simp: process_def)
qed

lemma resolveName_result: "fst (resolveName w a r) = fst (resolveName w a r')"
  by (simp add: resolveName_def getGitName_def act_defs split: option.splits)

lemma main_reaches_check:
  assumes k: "loadApiKeyW w = Inr k"
    and g: "fst (resolveName w (autoMode (parseArgs (argv w))) r) = Inr g"
    and b: "currentBranchW w = Inr b" and l: "linked (isAlreadyLinked b)"
  shows "\<exists>pre. quiet pre \<and>
     main w \<lparr>trace = [], cache = c\<rparr> =
       (Inr (), \<lparr>trace = pre @ [EvGit SymbolicRefHead, statusEvent w b], cache = c\<rparr>)"
proof -
  let ?a = "autoMode (parseArgs (argv w))"
  let ?r1 = "\<lparr>trace = [EvLoadApiKey], cache = c\<rparr>"
  from resolveName_run [of w ?a ?r1] obtain res tr where
    n: "resolveName w ?a ?r1 = (res, ?r1\<lparr>trace := trace ?r1 @ tr\<rparr>)" and q: "quiet tr"
    by blast
  from n have "res = fst (resolveName w ?a ?r1)" by simp
  with g resolveName_result [of w ?a ?r1 r] have res: "res = Inr g" by simp
  from n k res b l have "main w \<lparr>trace = [], cache = c\<rparr> =
      (Inr (), \<lparr>trace = (EvLoadApiKey # tr) @ [EvGit SymbolicRefHead, statusEvent w b], cache = c\<rparr>)"
    by (simp add: main_def Let_def bnd_def emit_def settle_def ret_def getCurrentBranch_def
        statusEvent_def)
  moreover have "quiet (EvLoadApiKey # tr)"
    using q by (simp add: quiet_simps isTrackerCall_def isGitMutation_def)
  ultimately show ?thesis by blast
qed

lemma process_reaches_check:
  assumes k: "loadApiKeyW w = Inr k"
    and g: "fst (resolveName w (autoMode (parseArgs (argv w))) r) = Inr g"
    and b: "currentBranchW w = Inr b" and l: "linked (isAlreadyLinked b)"
  shows "\<exists>pre. quiet pre \<and> process w = (pre @ [EvGit SymbolicRefHead, statusEvent w b], 0)"
proof -
  from main_reaches_check [OF k g b l, of "configFileW w"] obtain pre where "quiet pre"
    "main w \<lparr>trace = [], cache = configFileW w\<rparr> =
       (Inr (), \<lparr>trace = pre @ [EvGit SymbolicRefHead, statusEvent w b], cache = configFileW w\<rparr>)"
    by blast
  then have "quiet pre \<and> process w = (pre @ [EvGit SymbolicRefHead, statusEvent w b], 0)"
    by (simp add: process_def)
  then show ?thesis by blast
qed

subsection \<open>One run in full\<close>

lemma bare_facts:
  "autoMode (parseArgs [''ENG-1'']) = False"
  "determineMode (parseArgs [''ENG-1'']) = Search ''ENG-1''"
  "firstNameOf (Some ''Alice Smith'') False = ''alice''"
  "isAlreadyLinked ''main'' = \<lparr>linked = False, issueId = None\<rparr>"
  "test (issueRe None) ''ENG-1'' = True"
  "branchName ''alice'' \<lparr>identifier = ''ENG-1'', title = ''Fix login bug''\<rparr> =
     ''alice/ENG-1-fix-login-bug''"
  by code_simp+

lemma process_bareWorld:
  "process bareWorld =
    ([EvLoadApiKey, EvGit ConfigUserName, EvGit SymbolicRefHead, EvLoadConfig,
      EvLoadConfig, EvSpinStart (LookingUp ''ENG-1''),
      EvTracker (GetIssueById ''ENG-1''),
      EvSpinStop (FoundIssue ''ENG-1'' ''Fix login bug''),
      EvSpinStart UpdatingIssue, EvTracker GetViewerId,
      EvTracker (GetInProgressStateId ''ENG-1''),
      EvTracker (UpdateIssue ''ENG-1'' \<lparr>assigneeId = None, stateId = None\<rparr>),
      EvSpinStop IssueUpdated,
      EvSpinStart (CreatingBranch ''alice/ENG-1-fix-login-bug''),
      EvGit (PullOrigin ''main''),
      EvGit (CheckoutNew ''alice/ENG-1-fix-login-bug''),
      EvSpinStop (BranchDone ''alice/ENG-1-fix-login-bug''),
      EvTracker (GetIssueUrl ''ENG-1''),
      EvNote (Summary ''ENG-1'' ''Fix login bug'' ''alice/ENG-1-fix-login-bug'' None)], 0)"
  by (simp add: process_def main_def bareWorld_def Let_def act_defs resolveName_def
      getGitName_def getCurrentBranch_def refineMode_def resolveIssue_def loadTeamConfig_def
      validConfig_def updateStep_def branchStep_def summaryStep_def bare_facts newIssueRe_def
      truthy_def findInProgress_def)

lemma linked_facts:
  "isAlreadyLinked ''alice/ENG-142-fix-login'' = \<lparr>linked = True, issueId = Some ''ENG-142''\<rparr>"
  "firstNameOf (Some ''Alice Smith'') False = ''alice''"
  "autoMode (parseArgs [''ENG-1'']) = False"
  by code_simp+

section \<open>Claims about the command line\<close>

text \<open>
  C3, as stated: every argument vector that contains \<open>--create\<close> is classified as
  create. The long form is not declared: it is accepted as an unknown option and the
  classification goes on as if it were absent.
\<close>

theorem long_create_flag_ignored:
  "determineMode (parseArgs [''--create'', ''Fix'', ''bug'']) = Search ''Fix bug'' \<and>
   determineMode (parseArgs [''--create'', ''Fix'', ''bug'']) \<noteq> Create (Some ''Fix bug'') \<and>
   determineMode (parseArgs [''--create'']) = Interactive"
  by code_simp

text \<open>
  C3, amended: the short form \<open>-c\<close> forces create mode: an argument vector made of \<open>-c\<close>
  and of plain words (not starting with a dash), with \<open>-c\<close> in it, is classified as create,
  with the joined and trimmed words as title, or no title when they are blank. The long
  form \<open>--create\<close> is accepted and ignored: a vector made of \<open>--create\<close> and of plain words
  is classified as its plain words alone are, as interactive or as a search.
\<close>

theorem short_flag_creates:
  "(list_all (\<lambda>x. x = ''-c'' \<or> plainWord x) args \<and> ''-c'' \<in> set args \<longrightarrow>
      determineMode (parseArgs args) =
        Create (orUndefined (trim (join '' '' (filter plainWord args))))) \<and>
   (list_all (\<lambda>x. x = ''--create'' \<or> plainWord x) args \<longrightarrow>
      determineMode (parseArgs args) = determineMode (parseArgs (filter plainWord args)) \<and>
      (determineMode (parseArgs args) = Interactive \<or>
       (\<exists>q. determineMode (parseArgs args) = Search q)))"
proof -
  have "determineMode (parseArgs (filter plainWord args)) = Interactive \<or>
      (\<exists>q. determineMode (parseArgs (filter plainWord args)) = Search q)"
    using mode_plain [of "filter plainWord args"] by simp
  then show ?thesis
    using mode_c [of args] mode_create [of args] by (auto simp: list_all_iff)
qed

theorem short_flag_creates_witness:
  "list_all (\<lambda>x. x = ''-c'' \<or> plainWord x) [''-c'', ''Fix'', ''bug''] \<and>
   ''-c'' \<in> set [''-c'', ''Fix'', ''bug''] \<and>
   determineMode (parseArgs [''-c'', ''Fix'', ''bug'']) = Create (Some ''Fix bug'') \<and>
   list_all (\<lambda>x. x = ''--create'' \<or> plainWord x) [''--create'', ''Fix'', ''bug''] \<and>
   determineMode (parseArgs [''--create'', ''Fix'', ''bug'']) =
     determineMode (parseArgs [''Fix'', ''bug''])"
proof -
  let ?A = "[''-c'', ''Fix'', ''bug'']"
  let ?B = "[''--create'', ''Fix'', ''bug'']"
  have 1: "list_all (\<lambda>x. x = ''-c'' \<or> plainWord x) ?A"
    by (simp add: plainWord_def)
  have 2: "list_all (\<lambda>x. x = ''--create'' \<or> plainWord x) ?B"
    by (simp add: plainWord_def)
  have 3: "filter plainWord ?A = [''Fix'', ''bug'']" "filter plainWord ?B = [''Fix'', ''bug'']"
    by (simp_all add: plainWord_def)
  have 4: "orUndefined (trim (join '' '' [''Fix'', ''bug''])) = Some ''Fix bug''"
    by code_simp
  have 5: "''-c'' \<in> set ?A" by simp
  from short_flag_creates [of ?A] 1 5
  have "determineMode (parseArgs ?A) = Create (orUndefined (trim (join '' '' (filter plainWord ?A))))"
    by blast
  then have c: "determineMode (parseArgs ?A) = Create (Some ''Fix bug'')"
    unfolding 3 4 .
  from short_flag_creates [of ?B] 2
  have "determineMode (parseArgs ?B) = determineMode (parseArgs (filter plainWord ?B))"
    by blast
  then have d: "determineMode (parseArgs ?B) = determineMode (parseArgs [''Fix'', ''bug''])"
    unfolding 3 .
  from 1 5 c 2 d show ?thesis by (intro conjI)
qed

text \<open>
  C4, as stated: without flags, any positional argument at all gives a search for the
  joined arguments. A single empty argument is a positional argument, and the mode is
  interactive.
\<close>

theorem blank_positional_is_interactive:
  "positionals (parseArgs ['''']) = [''''] \<and>
   \<not> autoMode (parseArgs ['''']) \<and> \<not> createMode (parseArgs ['''']) \<and>
   determineMode (parseArgs ['''']) = Interactive \<and>
   determineMode (parseArgs ['''']) \<noteq> Search (join '' '' (positionals (parseArgs [''''])))"
  by code_simp

text \<open>
  C4, amended: the mode is a total function of the flags and the positional arguments,
  decided in this order: the auto flag gives auto; else the create flag gives create;
  both carry the positionals joined with spaces and trimmed, or nothing when that text is
  empty; else, when every positional is blank (in particular when there is none), the
  mode is interactive; else it is a search for the joined, trimmed text, which is not
  empty. The four examples of the specification hold.
\<close>

theorem determineMode_order:
  "(autoMode p \<longrightarrow> determineMode p = Auto (orUndefined (arg p))) \<and>
   (\<not> autoMode p \<and> createMode p \<longrightarrow> determineMode p = Create (orUndefined (arg p))) \<and>
   (\<not> autoMode p \<and> \<not> createMode p \<and> list_all (list_all isWs) (positionals p) \<longrightarrow>
      determineMode p = Interactive) \<and>
   (\<not> autoMode p \<and> \<not> createMode p \<and> \<not> list_all (list_all isWs) (positionals p) \<longrightarrow>
      determineMode p = Search (arg p) \<and> arg p \<noteq> []) \<and>
   arg p = trim (join '' '' (positionals p)) \<and>
   (orUndefined (arg p) = None \<longleftrightarrow> list_all (list_all isWs) (positionals p)) \<and>
   determineMode \<lparr>values = [''auto'' \<mapsto> VBool True], positionals = [''ENG-1'']\<rparr> = Auto (Some ''ENG-1'') \<and>
   determineMode \<lparr>values = Map.empty, positionals = []\<rparr> = Interactive \<and>
   determineMode \<lparr>values = [''c'' \<mapsto> VBool True], positionals = []\<rparr> = Create None \<and>
   determineMode \<lparr>values = Map.empty, positionals = [''fix'', ''bug'']\<rparr> = Search ''fix bug''"
proof -
  have t: "trim ''ENG-1'' = ''ENG-1''" "trim [] = []" "trim ''fix bug'' = ''fix bug''"
    by code_simp+
  have "determineMode \<lparr>values = [''auto'' \<mapsto> VBool True], positionals = [''ENG-1'']\<rparr> = Auto (Some ''ENG-1'')"
    "determineMode \<lparr>values = Map.empty, positionals = []\<rparr> = Interactive"
    "determineMode \<lparr>values = [''c'' \<mapsto> VBool True], positionals = []\<rparr> = Create None"
    "determineMode \<lparr>values = Map.empty, positionals = [''fix'', ''bug'']\<rparr> = Search ''fix bug''"
    by (simp_all add: determineMode_def autoMode_def createMode_def arg_def orUndefined_def t)
  moreover have "orUndefined (arg p) = None \<longleftrightarrow> list_all (list_all isWs) (positionals p)"
    using arg_blank [of p] by (simp add: orUndefined_def)
  ultimately show ?thesis
    using arg_blank [of p] by (simp add: determineMode_def arg_def)
qed

theorem determineMode_order_witness:
  "autoMode (parseArgs [''--auto'', ''-c'', ''ENG-1'']) \<and>
   createMode (parseArgs [''--auto'', ''-c'', ''ENG-1'']) \<and>
   determineMode (parseArgs [''--auto'', ''-c'', ''ENG-1'']) = Auto (Some ''ENG-1'') \<and>
   \<not> autoMode (parseArgs [''-c'']) \<and> createMode (parseArgs [''-c'']) \<and>
   determineMode (parseArgs [''-c'']) = Create None \<and>
   \<not> autoMode (parseArgs ['' '']) \<and> \<not> createMode (parseArgs ['' '']) \<and>
   list_all (list_all isWs) (positionals (parseArgs ['' ''])) \<and>
   determineMode (parseArgs ['' '']) = Interactive \<and>
   \<not> autoMode (parseArgs [''fix'', ''bug'']) \<and> \<not> createMode (parseArgs [''fix'', ''bug'']) \<and>
   \<not> list_all (list_all isWs) (positionals (parseArgs [''fix'', ''bug''])) \<and>
   determineMode (parseArgs [''fix'', ''bug'']) = Search ''fix bug''"
proof -
  have 1: "autoMode (parseArgs [''--auto'', ''-c'', ''ENG-1''])"
    "createMode (parseArgs [''--auto'', ''-c'', ''ENG-1''])"
    "orUndefined (arg (parseArgs [''--auto'', ''-c'', ''ENG-1''])) = Some ''ENG-1''"
    by code_simp+
  have 2: "\<not> autoMode (parseArgs [''-c''])" "createMode (parseArgs [''-c''])"
    "orUndefined (arg (parseArgs [''-c''])) = None"
    by code_simp+
  have 3: "\<not> autoMode (parseArgs ['' ''])" "\<not> createMode (parseArgs ['' ''])"
    "list_all (list_all isWs) (positionals (parseArgs ['' '']))"
    by code_simp+
  have 4: "\<not> autoMode (parseArgs [''fix'', ''bug''])" "\<not> createMode (parseArgs [''fix'', ''bug''])"
    "\<not> list_all (list_all isWs) (positionals (parseArgs [''fix'', ''bug'']))"
    "arg (parseArgs [''fix'', ''bug'']) = ''fix bug''"
    by code_simp+
  from 1 2 3 4
    determineMode_order [of "parseArgs [''--auto'', ''-c'', ''ENG-1'']"]
    determineMode_order [of "parseArgs [''-c'']"]
    determineMode_order [of "parseArgs ['' '']"]
    determineMode_order [of "parseArgs [''fix'', ''bug'']"]
  show ?thesis by simp
qed

section \<open>Claims about the effects of a run\<close>

text \<open>
  C1, as stated: when both the viewer id and the in-progress state id are absent, no
  issue-update call is sent to the tracker. In the world \<open>bareWorld\<close> both are absent, and
  the run sends the update with an empty set of fields.
\<close>

theorem empty_update_is_sent:
  "viewerIdW bareWorld = Inr None \<and>
   statesW bareWorld ''ENG-1'' = Inr [] \<and>
   findInProgress [] = None \<and>
   EvTracker (UpdateIssue ''ENG-1'' \<lparr>assigneeId = None, stateId = None\<rparr>)
     \<in> set (fst (process bareWorld))"
  by (simp add: process_bareWorld) (simp add: bareWorld_def findInProgress_def)

text \<open>
  C1, amended: whenever the two fetches of the update step succeed, the step sends
  exactly one issue-update call, for the resolved issue, carrying the viewer id as
  assignee and the in-progress state id as state, each only if present; when both are
  absent the call is still sent, with neither field.
\<close>

theorem update_always_sent:
  "viewerIdW w = Inr v \<and> statesW w (identifier i) = Inr sts \<longrightarrow>
     filter isUpdateCall (newEvents (updateStep w i) r) =
       [EvTracker (UpdateIssue (identifier i)
          \<lparr>assigneeId = truthy v, stateId = truthy (findInProgress sts)\<rparr>)] \<and>
     (truthy v = None \<and> findInProgress sts = None \<longrightarrow>
        filter isUpdateCall (newEvents (updateStep w i) r) =
          [EvTracker (UpdateIssue (identifier i) \<lparr>assigneeId = None, stateId = None\<rparr>)])"
  using updateStep_run [of w v i sts r] by (auto simp: truthy_def)

theorem update_always_sent_witness:
  "viewerIdW bareWorld = Inr None \<and>
   statesW bareWorld ''ENG-1'' = Inr [] \<and>
   truthy None = None \<and> findInProgress [] = None \<and>
   filter isUpdateCall
     (newEvents (updateStep bareWorld \<lparr>identifier = ''ENG-1'', title = ''Fix login bug''\<rparr>)
        \<lparr>trace = [], cache = None\<rparr>) =
     [EvTracker (UpdateIssue ''ENG-1'' \<lparr>assigneeId = None, stateId = None\<rparr>)]"
proof -
  have 1: "viewerIdW bareWorld = Inr None" by (simp add: bareWorld_def)
  have 2: "statesW bareWorld ''ENG-1'' = Inr []" by (simp add: bareWorld_def)
  have 3: "truthy None = None" "findInProgress [] = None"
    by (simp_all add: truthy_def findInProgress_def)
  from 1 2 3
    update_always_sent [of bareWorld None "\<lparr>identifier = ''ENG-1'', title = ''Fix login bug''\<rparr>" "[]"
      "\<lparr>trace = [], cache = None\<rparr>"]
  show ?thesis by simp
qed

text \<open>
  C2. For a query that matches the issue-id pattern built from the cached team key (the
  generic pattern when no key is cached), resolving \<open>search(query)\<close> is resolving
  \<open>direct(query)\<close>: the two runs are equal, result and trace; the one tracker call is the
  lookup by id, no search call is made, and an id that the tracker does not know fails
  as not found. The refinement in \<open>main\<close> leaves the mode as it is, or turns a search
  whose query matches the pattern into a direct lookup, or, for a search, fails because
  the pattern cannot be built from the key; it does nothing else.
\<close>

theorem search_by_id_is_direct:
  "(newIssueRe w (cachedTeamKey r) = Inr re \<and> re q \<longrightarrow>
      resolveIssue w a (Search q) r = resolveIssue w a (Direct q) r \<and>
      filter isTrackerCall (newEvents (resolveIssue w a (Search q)) r) = [EvTracker (GetIssueById q)] \<and>
      filter isSearchCall (newEvents (resolveIssue w a (Search q)) r) = [] \<and>
      (getIssueByIdW w q = Inr None \<longrightarrow>
         fst (resolveIssue w a (Search q) r) = Inl (Failed (NotFoundError q)))) \<and>
   (fst (refineMode w m r) = Inr m \<or>
    (\<exists>x t. m = Search x \<and> newIssueRe w (cachedTeamKey r) = Inr t \<and> t x \<and>
       fst (refineMode w m r) = Inr (Direct x)) \<or>
    (\<exists>x. m = Search x \<and> newIssueRe w (cachedTeamKey r) = Inl SyntaxError \<and>
       fst (refineMode w m r) = Inl (Failed SyntaxError)))"
proof -
  have "resolveIssue w a (Search q) r = resolveIssue w a (Direct q) r \<and>
      filter isTrackerCall (newEvents (resolveIssue w a (Search q)) r) = [EvTracker (GetIssueById q)] \<and>
      filter isSearchCall (newEvents (resolveIssue w a (Search q)) r) = [] \<and>
      (getIssueByIdW w q = Inr None \<longrightarrow>
         fst (resolveIssue w a (Search q) r) = Inl (Failed (NotFoundError q)))"
    if re: "newIssueRe w (cachedTeamKey r) = Inr re" and q: "re q"
  proof -
    have "fst (resolveIssue w a (Direct q) r) = Inl (Failed (NotFoundError q))"
      if "getIssueByIdW w q = Inr None"
      using that by (simp add: resolve_direct_run [OF re])
    then show ?thesis
      using resolve_search_direct [OF re q, of a] resolve_direct_calls [OF re, of a q]
      by (simp add: newEvents_def)
  qed
  then show ?thesis using refineMode_run [of w m r] by blast
qed

theorem search_by_id_is_direct_witness:
  "newIssueRe (bareWorld\<lparr>getIssueByIdW := \<lambda>_. Inr None\<rparr>)
     (cachedTeamKey \<lparr>trace = [], cache = Some \<lparr>teamId = ''t1'', teamKey = ''ENG''\<rparr>\<rparr>) =
     Inr (test (issueRe (Some ''ENG''))) \<and>
   test (issueRe (Some ''ENG'')) ''ENG-142'' \<and>
   resolveIssue (bareWorld\<lparr>getIssueByIdW := \<lambda>_. Inr None\<rparr>) False (Search ''ENG-142'')
       \<lparr>trace = [], cache = Some \<lparr>teamId = ''t1'', teamKey = ''ENG''\<rparr>\<rparr> =
     resolveIssue (bareWorld\<lparr>getIssueByIdW := \<lambda>_. Inr None\<rparr>) False (Direct ''ENG-142'')
       \<lparr>trace = [], cache = Some \<lparr>teamId = ''t1'', teamKey = ''ENG''\<rparr>\<rparr> \<and>
   getIssueByIdW (bareWorld\<lparr>getIssueByIdW := \<lambda>_. Inr None\<rparr>) ''ENG-142'' = Inr None \<and>
   fst (resolveIssue (bareWorld\<lparr>getIssueByIdW := \<lambda>_. Inr None\<rparr>) False (Search ''ENG-142'')
       \<lparr>trace = [], cache = Some \<lparr>teamId = ''t1'', teamKey = ''ENG''\<rparr>\<rparr>) =
     Inl (Failed (NotFoundError ''ENG-142''))"
proof -
  let ?r = "\<lparr>trace = [], cache = Some \<lparr>teamId = ''t1'', teamKey = ''ENG''\<rparr>\<rparr>"
  let ?w = "bareWorld\<lparr>getIssueByIdW := \<lambda>_. Inr None\<rparr>"
  have k: "cachedTeamKey ?r = Some ''ENG''"
    by (simp add: cachedTeamKey_def validConfig_def)
  have 1: "newIssueRe ?w (cachedTeamKey ?r) = Inr (test (issueRe (Some ''ENG'')))"
    unfolding k by (simp add: newIssueRe_def truthy_def syntaxChar_def code_def)
  have 2: "test (issueRe (Some ''ENG'')) ''ENG-142''" by code_simp
  have 3: "getIssueByIdW ?w ''ENG-142'' = Inr None" by simp
  from 1 2 3 search_by_id_is_direct [of ?w ?r "test (issueRe (Some ''ENG''))" "''ENG-142''" False]
  show ?thesis by blast
qed

text \<open>
  C8. Among the workflow states of the issue's team, the in-progress state id is the id
  of the first state named \<open>"In Progress"\<close> when there is one; otherwise the id of the
  first state of type \<open>"started"\<close> whose name contains \<open>"progress"\<close> whatever the case;
  when there is neither, no state id results, and the update that the orchestrator sends
  carries no state field and still carries the viewer id as assignee when there is one.
\<close>

theorem in_progress_resolution:
  "((\<exists>s\<in>set sts. sname s = ''In Progress'') \<longrightarrow>
      (\<exists>k<length sts. sname (sts ! k) = ''In Progress'' \<and>
         (\<forall>j<k. sname (sts ! j) \<noteq> ''In Progress'') \<and>
         findInProgress sts = Some (sid (sts ! k)))) \<and>
   ((\<forall>s\<in>set sts. sname s \<noteq> ''In Progress'') \<and>
    (\<exists>s\<in>set sts. stype s = ''started'' \<and> containsNoCase ''progress'' (sname s)) \<longrightarrow>
      (\<exists>k<length sts. stype (sts ! k) = ''started'' \<and> containsNoCase ''progress'' (sname (sts ! k)) \<and>
         (\<forall>j<k. \<not> (stype (sts ! j) = ''started'' \<and> containsNoCase ''progress'' (sname (sts ! j)))) \<and>
         findInProgress sts = Some (sid (sts ! k)))) \<and>
   ((\<forall>s\<in>set sts. sname s \<noteq> ''In Progress'' \<and>
        \<not> (stype s = ''started'' \<and> containsNoCase ''progress'' (sname s))) \<longrightarrow>
      findInProgress sts = None \<and>
      (viewerIdW w = Inr v \<and> statesW w (identifier i) = Inr sts \<longrightarrow>
         filter isUpdateCall (newEvents (updateStep w i) r) =
           [EvTracker (UpdateIssue (identifier i) \<lparr>assigneeId = truthy v, stateId = None\<rparr>)]))"
proof (intro conjI impI)
  assume "\<exists>s\<in>set sts. sname s = ''In Progress''"
  then show "\<exists>k<length sts. sname (sts ! k) = ''In Progress'' \<and>
         (\<forall>j<k. sname (sts ! j) \<noteq> ''In Progress'') \<and>
         findInProgress sts = Some (sid (sts ! k))"
    by (rule findInProgress_named)
next
  assume "(\<forall>s\<in>set sts. sname s \<noteq> ''In Progress'') \<and>
    (\<exists>s\<in>set sts. stype s = ''started'' \<and> containsNoCase ''progress'' (sname s))"
  then show "\<exists>k<length sts. stype (sts ! k) = ''started'' \<and> containsNoCase ''progress'' (sname (sts ! k)) \<and>
         (\<forall>j<k. \<not> (stype (sts ! j) = ''started'' \<and> containsNoCase ''progress'' (sname (sts ! j)))) \<and>
         findInProgress sts = Some (sid (sts ! k))"
    using findInProgress_fallback [of sts] by (simp add: startedProgress_iff)
next
  assume a: "\<forall>s\<in>set sts. sname s \<noteq> ''In Progress'' \<and>
        \<not> (stype s = ''started'' \<and> containsNoCase ''progress'' (sname s))"
  then show n: "findInProgress sts = None"
    using findInProgress_none [of sts] by (simp add: startedProgress_iff)
  assume "viewerIdW w = Inr v \<and> statesW w (identifier i) = Inr sts"
  then show "filter isUpdateCall (newEvents (updateStep w i) r) =
           [EvTracker (UpdateIssue (identifier i) \<lparr>assigneeId = truthy v, stateId = None\<rparr>)]"
    using updateStep_run [of w v i sts r] n by (simp add: truthy_def)
qed

theorem in_progress_resolution_witness:
  "(\<exists>s\<in>set [\<lparr>sid = ''s1'', sname = ''Todo'', stype = ''unstarted''\<rparr>,
               \<lparr>sid = ''s2'', sname = ''In Progress'', stype = ''started''\<rparr>].
      sname s = ''In Progress'') \<and>
   findInProgress [\<lparr>sid = ''s1'', sname = ''Todo'', stype = ''unstarted''\<rparr>,
                   \<lparr>sid = ''s2'', sname = ''In Progress'', stype = ''started''\<rparr>] = Some ''s2'' \<and>
   list_all (\<lambda>s. sname s \<noteq> ''In Progress'')
     [\<lparr>sid = ''s1'', sname = ''Todo'', stype = ''unstarted''\<rparr>,
      \<lparr>sid = ''s3'', sname = ''Work in PROGRESS'', stype = ''started''\<rparr>] \<and>
   containsNoCase ''progress'' ''Work in PROGRESS'' \<and>
   findInProgress [\<lparr>sid = ''s1'', sname = ''Todo'', stype = ''unstarted''\<rparr>,
                   \<lparr>sid = ''s3'', sname = ''Work in PROGRESS'', stype = ''started''\<rparr>] = Some ''s3'' \<and>
   list_all (\<lambda>s. sname s \<noteq> ''In Progress'' \<and>
                 \<not> (stype s = ''started'' \<and> containsNoCase ''progress'' (sname s)))
     [\<lparr>sid = ''s1'', sname = ''Todo'', stype = ''unstarted''\<rparr>,
      \<lparr>sid = ''s4'', sname = ''Progressing'', stype = ''backlog''\<rparr>] \<and>
   findInProgress [\<lparr>sid = ''s1'', sname = ''Todo'', stype = ''unstarted''\<rparr>,
                   \<lparr>sid = ''s4'', sname = ''Progressing'', stype = ''backlog''\<rparr>] = None \<and>
   filter isUpdateCall
     (newEvents
        (updateStep
           (bareWorld\<lparr>viewerIdW := Inr (Some ''u1''),
              statesW := \<lambda>_. Inr [\<lparr>sid = ''s1'', sname = ''Todo'', stype = ''unstarted''\<rparr>,
                                  \<lparr>sid = ''s4'', sname = ''Progressing'', stype = ''backlog''\<rparr>]\<rparr>)
           \<lparr>identifier = ''ENG-1'', title = ''Fix login bug''\<rparr>)
        \<lparr>trace = [], cache = None\<rparr>) =
     [EvTracker (UpdateIssue ''ENG-1'' \<lparr>assigneeId = Some ''u1'', stateId = None\<rparr>)]"
proof -
  let ?s1 = "[\<lparr>sid = ''s1'', sname = ''Todo'', stype = ''unstarted''\<rparr>,
               \<lparr>sid = ''s2'', sname = ''In Progress'', stype = ''started''\<rparr>]"
  let ?s2 = "[\<lparr>sid = ''s1'', sname = ''Todo'', stype = ''unstarted''\<rparr>,
      \<lparr>sid = ''s3'', sname = ''Work in PROGRESS'', stype = ''started''\<rparr>]"
  let ?s3 = "[\<lparr>sid = ''s1'', sname = ''Todo'', stype = ''unstarted''\<rparr>,
      \<lparr>sid = ''s4'', sname = ''Progressing'', stype = ''backlog''\<rparr>]"
  let ?w = "bareWorld\<lparr>viewerIdW := Inr (Some ''u1''), statesW := \<lambda>_. Inr ?s3\<rparr>"
  let ?i = "\<lparr>identifier = ''ENG-1'', title = ''Fix login bug''\<rparr>"
  have a: "\<exists>s\<in>set ?s1. sname s = ''In Progress''" by simp
  have b1: "\<forall>s\<in>set ?s2. sname s \<noteq> ''In Progress''" by simp
  have "searchI ''progress'' ''Work in PROGRESS''" by code_simp
  then have b2: "containsNoCase ''progress'' ''Work in PROGRESS''" by (simp only: searchI_iff)
  then have b3: "\<exists>s\<in>set ?s2. stype s = ''started'' \<and> containsNoCase ''progress'' (sname s)"
    by simp
  have c: "\<forall>s\<in>set ?s3. sname s \<noteq> ''In Progress'' \<and>
                 \<not> (stype s = ''started'' \<and> containsNoCase ''progress'' (sname s))" by simp
  have d: "viewerIdW ?w = Inr (Some ''u1'')" "statesW ?w (identifier ?i) = Inr ?s3" by simp_all
  have t: "truthy (Some ''u1'') = Some ''u1''" by (simp add: truthy_def)
  from a in_progress_resolution [of ?s1] have r1: "findInProgress ?s1 = Some ''s2''"
    by (auto simp: less_Suc_eq)
  from b1 b3 in_progress_resolution [of ?s2] have r2: "findInProgress ?s2 = Some ''s3''"
    by (auto simp: less_Suc_eq)
  from c d in_progress_resolution [of ?s3 ?w "Some ''u1''" ?i "\<lparr>trace = [], cache = None\<rparr>"]
  have r3: "findInProgress ?s3 = None"
    "filter isUpdateCall (newEvents (updateStep ?w ?i) \<lparr>trace = [], cache = None\<rparr>) =
       [EvTracker (UpdateIssue (identifier ?i) \<lparr>assigneeId = truthy (Some ''u1''), stateId = None\<rparr>)]"
    by blast+
  from a b1 b2 c r1 r2 r3 t show ?thesis by (simp add: list_all_iff)
qed

text \<open>
  C9. When the current branch already has the linked shape, the run makes no tracker
  call and no pull, branch creation or rename. When moreover the run reaches the check
  (the credential is found and the git name is resolved), all it does after reading the
  branch name is print the already-linked status, and the process exits with code 0.
\<close>

theorem linked_branch_short_circuit:
  "(currentBranchW w = Inr b \<and> linked (isAlreadyLinked b) \<longrightarrow> quiet (fst (process w))) \<and>
   (loadApiKeyW w = Inr k \<and>
    fst (resolveName w (autoMode (parseArgs (argv w))) r) = Inr g \<and>
    currentBranchW w = Inr b \<and> linked (isAlreadyLinked b) \<longrightarrow>
      (\<exists>pre. quiet pre \<and> process w = (pre @ [EvGit SymbolicRefHead, statusEvent w b], 0)))"
  using process_linked(1) [of w b] process_reaches_check [of w k r g b] by blast

theorem linked_branch_short_circuit_witness:
  "currentBranchW (bareWorld\<lparr>currentBranchW := Inr ''alice/ENG-142-fix-login''\<rparr>) =
     Inr ''alice/ENG-142-fix-login'' \<and>
   linked (isAlreadyLinked ''alice/ENG-142-fix-login'') \<and>
   loadApiKeyW (bareWorld\<lparr>currentBranchW := Inr ''alice/ENG-142-fix-login''\<rparr>) = Inr ''lin_api_key'' \<and>
   fst (resolveName (bareWorld\<lparr>currentBranchW := Inr ''alice/ENG-142-fix-login''\<rparr>) False
          \<lparr>trace = [], cache = None\<rparr>) = Inr ''alice'' \<and>
   quiet (fst (process (bareWorld\<lparr>currentBranchW := Inr ''alice/ENG-142-fix-login''\<rparr>))) \<and>
   (\<exists>pre. quiet pre \<and>
      process (bareWorld\<lparr>currentBranchW := Inr ''alice/ENG-142-fix-login''\<rparr>) =
        (pre @ [EvGit SymbolicRefHead,
                EvLog (AlreadyLinked (Some ''ENG-142'') ''alice/ENG-142-fix-login'')], 0))"
proof -
  let ?w = "bareWorld\<lparr>currentBranchW := Inr ''alice/ENG-142-fix-login''\<rparr>"
  let ?b = "''alice/ENG-142-fix-login''"
  let ?r = "\<lparr>trace = [], cache = None\<rparr>"
  have a0: "autoMode (parseArgs (argv bareWorld)) = False"
    by (simp add: bareWorld_def linked_facts(3))
  then have a: "autoMode (parseArgs (argv ?w)) = False" by simp
  have 1: "currentBranchW ?w = Inr ?b" by simp
  have 2: "linked (isAlreadyLinked ?b)" by (simp add: linked_facts(1))
  have 3: "loadApiKeyW ?w = Inr ''lin_api_key''" by (simp add: bareWorld_def)
  have 4: "fst (resolveName ?w False ?r) = Inr ''alice''"
    by (simp add: resolveName_def getGitName_def act_defs bareWorld_def linked_facts(2))
  have 5: "statusEvent ?w ?b = EvLog (AlreadyLinked (Some ''ENG-142'') ?b)"
    by (simp add: statusEvent_def a0 linked_facts(1))
  have r4: "fst (resolveName ?w (autoMode (parseArgs (argv ?w))) ?r) = Inr ''alice''"
    unfolding a by (rule 4)
  from 1 2 3 r4 linked_branch_short_circuit [of ?w ?b "''lin_api_key''" ?r "''alice''"]
  have "quiet (fst (process ?w))"
    "\<exists>pre. quiet pre \<and> process ?w = (pre @ [EvGit SymbolicRefHead, statusEvent ?w ?b], 0)"
    by blast+
  with 1 2 3 4 5 show ?thesis by (simp only: simp_thms)
qed

end
